theory Spec2Isabelle
  imports Main "HOL-Library.Sublist"
begin

section \<open>Python values shared by the models\<close>

text \<open>
  The exceptions the modelled functions can raise. \<open>IndexError\<close> is what both the explicit
  \<^verbatim>\<open>raise IndexError(...)\<close> of the remapper and an out-of-range string index produce
  (the specification calls it AlignmentOverrunError); \<open>AssertionError\<close> is the failed
  \<^verbatim>\<open>assert true_start is not None\<close> (OrphanSpanEndError in the specification);
  \<open>ValueError\<close> is \<^verbatim>\<open>min\<close> of an empty set; \<open>AttributeError\<close> is the read of an attribute
  that was never set; \<open>IOError\<close> is the write to a pipe that nobody reads any more (broken
  pipe).
\<close>

datatype py_error = IndexError | AssertionError | ValueError | AttributeError | IOError

text \<open>
  \<^verbatim>\<open>dict(items)\<close> and a dict comprehension insert the items from left to right, so that the
  last item with a given key wins.
\<close>

definition dict_of :: "('k \<times> 'v) list \<Rightarrow> ('k \<rightharpoonup> 'v)" where
  "dict_of items = fold (\<lambda>(k, v) m. m(k \<mapsto> v)) items Map.empty"

text \<open>The test \<^verbatim>\<open>key in d\<close>.\<close>

definition has_key :: "('k \<rightharpoonup> 'v) \<Rightarrow> 'k \<Rightarrow> bool" where
  "has_key m k = (m k \<noteq> None)"

section \<open>The constraint index remapper\<close>

text \<open>
  Offsets are character offsets, modelled as natural numbers: the cursor starts at 0 and only
  grows, \<open>current_offset\<close> never exceeds it, and a negative key of a span could never equal
  a cursor position.
\<close>

record remap_state =
  tokenized_idx :: nat
  current_offset :: nat
  true_start :: "nat option"
  remapped_indices :: "(nat \<times> nat) list"

text \<open>
  The test of the cursor position against the registered starts and ends; the source has this
  block twice, before the skipping loop (lines 35-41) and inside it (lines 53-59).
\<close>

definition check_position ::
  "(nat \<rightharpoonup> nat) \<Rightarrow> (nat \<rightharpoonup> nat) \<Rightarrow> remap_state \<Rightarrow> py_error + remap_state" where
  "check_position starts ends st =
     (if has_key starts (tokenized_idx st)
      then Inr (st\<lparr>true_start := Some (tokenized_idx st - current_offset st)\<rparr>)
      else if has_key ends (tokenized_idx st)
      then (case true_start st of
              None \<Rightarrow> Inl AssertionError
            | Some s \<Rightarrow>
                Inr (st\<lparr>remapped_indices :=
                           remapped_indices st @ [(s, tokenized_idx st - current_offset st)],
                         true_start := None\<rparr>))
      else Inr st)"

lemma check_position_idx:
  "check_position starts ends st = Inr st' \<Longrightarrow>
     tokenized_idx st' = tokenized_idx st \<and> current_offset st' = current_offset st"
  by (auto simp: check_position_def split: if_splits option.splits)

text \<open>
  The loop \<^verbatim>\<open>while output_char != tokenized_sequence[tokenized_idx]\<close>. Reading
  \<^verbatim>\<open>tokenized_sequence[tokenized_idx]\<close> at or beyond the length raises IndexError.
\<close>

function skip_loop ::
  "string \<Rightarrow> char \<Rightarrow> (nat \<rightharpoonup> nat) \<Rightarrow> (nat \<rightharpoonup> nat) \<Rightarrow> remap_state
     \<Rightarrow> py_error + remap_state" where
  "skip_loop tokenized output_char starts ends st =
     (if length tokenized \<le> tokenized_idx st then Inl IndexError
      else if output_char = tokenized ! tokenized_idx st then Inr st
      else
        (let st1 = st\<lparr>tokenized_idx := tokenized_idx st + 1,
                       current_offset := current_offset st + 1\<rparr>
         in if length tokenized < tokenized_idx st1 then Inl IndexError
            else (case check_position starts ends st1 of
                    Inl e \<Rightarrow> Inl e
                  | Inr st2 \<Rightarrow> skip_loop tokenized output_char starts ends st2)))"
  by pat_completeness auto
termination
  by (relation "measure (\<lambda>(t, c, s, e, st). length t - tokenized_idx st)")
     (auto dest!: check_position_idx)

declare skip_loop.simps [simp del]

text \<open>The loop \<^verbatim>\<open>for true_idx, output_char in enumerate(detokenized_sequence)\<close>.\<close>

fun for_loop ::
  "string \<Rightarrow> (nat \<rightharpoonup> nat) \<Rightarrow> (nat \<rightharpoonup> nat) \<Rightarrow> string \<Rightarrow> remap_state
     \<Rightarrow> py_error + remap_state" where
  "for_loop tokenized starts ends [] st = Inr st"
| "for_loop tokenized starts ends (output_char # rest) st =
     (case check_position starts ends st of
        Inl e \<Rightarrow> Inl e
      | Inr st1 \<Rightarrow>
          (case skip_loop tokenized output_char starts ends st1 of
             Inl e \<Rightarrow> Inl e
           | Inr st2 \<Rightarrow>
               for_loop tokenized starts ends rest
                 (st2\<lparr>tokenized_idx := tokenized_idx st2 + 1\<rparr>)))"

definition remap_constraint_indices ::
  "string \<Rightarrow> string \<Rightarrow> (nat \<times> nat) list \<Rightarrow> py_error + (nat \<times> nat) list" where
  "remap_constraint_indices tokenized_sequence detokenized_sequence constraint_indices =
     (let constraint_idx_starts = dict_of constraint_indices;
          constraint_idx_ends = dict_of (map (\<lambda>(start, end). (end, start)) constraint_indices)
      in case for_loop tokenized_sequence constraint_idx_starts constraint_idx_ends
                detokenized_sequence
                \<lparr>tokenized_idx = 0, current_offset = 0, true_start = None,
                 remapped_indices = []\<rparr> of
           Inl e \<Rightarrow> Inl e
         | Inr st \<Rightarrow>
             (case true_start st of
                Some s \<Rightarrow>
                  Inr (remapped_indices st @ [(s, tokenized_idx st - current_offset st)])
              | None \<Rightarrow> Inr (remapped_indices st)))"


section \<open>Strings\<close>

text \<open>
  Text is modelled as a list of characters below code point 128, where
  \<^verbatim>\<open>encode('utf8')\<close> and \<^verbatim>\<open>decode('utf8')\<close> are the identity. \<open>is_space\<close> is the whitespace of
  Python 2 \<^verbatim>\<open>unicode\<close> strings in that range (code points 9-13, 28-32), used by
  \<^verbatim>\<open>unicode.split()\<close>; \<open>is_space_bytes\<close> is the whitespace of byte strings (9-13, 32), used
  by \<^verbatim>\<open>str.rstrip()\<close>.
\<close>

definition is_space :: "char \<Rightarrow> bool" where
  "is_space c = (let n = of_char c :: nat in (9 \<le> n \<and> n \<le> 13) \<or> (28 \<le> n \<and> n \<le> 32))"

definition is_space_bytes :: "char \<Rightarrow> bool" where
  "is_space_bytes c = (let n = of_char c :: nat in (9 \<le> n \<and> n \<le> 13) \<or> n = 32)"

text \<open>
  \<^verbatim>\<open>s.split()\<close> without arguments: the maximal runs of non-whitespace characters. \<open>cur\<close> is
  the run being read.
\<close>

fun split_run :: "string \<Rightarrow> string \<Rightarrow> string list" where
  "split_run cur [] = (if cur = [] then [] else [cur])"
| "split_run cur (c # cs) =
     (if is_space c
      then (if cur = [] then split_run [] cs else cur # split_run [] cs)
      else split_run (cur @ [c]) cs)"

definition split_str :: "string \<Rightarrow> string list" where
  "split_str s = split_run [] s"

text \<open>\<^verbatim>\<open>s.strip()\<close> on text and \<^verbatim>\<open>s.rstrip()\<close> on a byte string.\<close>

definition strip :: "string \<Rightarrow> string" where
  "strip s = rev (dropWhile is_space (rev (dropWhile is_space s)))"

definition rstrip_bytes :: "string \<Rightarrow> string" where
  "rstrip_bytes s = rev (dropWhile is_space_bytes (rev s))"

text \<open>\<^verbatim>\<open>sep.join(items)\<close>.\<close>

fun join :: "string \<Rightarrow> string list \<Rightarrow> string" where
  "join sep [] = []"
| "join sep [x] = x"
| "join sep (x # y # ys) = x @ sep @ join sep (y # ys)"

text \<open>
  \<^verbatim>\<open>s.replace(old, '')\<close> for a non-empty \<open>old\<close>: every occurrence of \<open>old\<close>, found from left
  to right without overlap, is removed.
\<close>

fun remove_all :: "string \<Rightarrow> string \<Rightarrow> string" where
  "remove_all old [] = []"
| "remove_all old (c # cs) =
     (if old \<noteq> [] \<and> prefix old (c # cs)
      then remove_all old (drop (length old) (c # cs))
      else c # remove_all old cs)"

text \<open>\<^verbatim>\<open>s.endswith(suffix)\<close>.\<close>

definition endswith :: "string \<Rightarrow> string \<Rightarrow> bool" where
  "endswith s suf = suffix suf s"

section \<open>The subword merge table and the BPE segmenter\<close>

text \<open>
  A key of the merge table is the tuple of fields of one declaration, of whatever length
  \<^verbatim>\<open>item.split()\<close> gives; the pair \<open>(first, second)\<close> is the tuple \<open>[first, second]\<close>.
\<close>

type_synonym merge_table = "string list \<rightharpoonup> nat"

record BPE =
  bpe_codes :: merge_table
  separator :: string
  ignore :: "string list option"

text \<open>\<^verbatim>\<open>list(enumerate(xs))\<close>.\<close>

definition enumerate_list :: "'a list \<Rightarrow> (nat \<times> 'a) list" where
  "enumerate_list xs = zip [0..<length xs] xs"

text \<open>\<^verbatim>\<open>BPE.__init__(codes, separator, ignore)\<close>; no statement of it raises.\<close>

definition BPE_init :: "string list \<Rightarrow> string \<Rightarrow> string list option \<Rightarrow> BPE" where
  "BPE_init codes sep ign =
     (let codes1 = map split_str codes;
          codes2 = dict_of (map (\<lambda>(i, code). (code, i)) (rev (enumerate_list codes1)))
      in \<lparr>bpe_codes = codes2, separator = sep, ignore = ign\<rparr>)"

text \<open>
  \<^verbatim>\<open>get_pairs(word)\<close>. The source returns a set, whose iteration order Python does not
  specify; the model lists the distinct adjacent pairs in one fixed order (lemma
  \<open>min_by_order_independent\<close> shows that the order does not matter). \<^verbatim>\<open>word[0]\<close> of an
  empty word raises IndexError.
\<close>

fun adjacent_pairs :: "'a list \<Rightarrow> ('a \<times> 'a) list" where
  "adjacent_pairs (x # y # zs) = (x, y) # adjacent_pairs (y # zs)"
| "adjacent_pairs _ = []"

definition get_pairs :: "string list \<Rightarrow> py_error + (string \<times> string) list" where
  "get_pairs word = (if word = [] then Inl IndexError else Inr (remdups (adjacent_pairs word)))"

text \<open>
  \<^verbatim>\<open>bpe_codes.get(pair, float('inf'))\<close>: \<open>None\<close> stands for infinity, above every priority.
\<close>

definition priority :: "merge_table \<Rightarrow> string \<times> string \<Rightarrow> nat option" where
  "priority codes pair = codes [fst pair, snd pair]"

definition prio_less :: "nat option \<Rightarrow> nat option \<Rightarrow> bool" where
  "prio_less a b = (case a of None \<Rightarrow> False | Some x \<Rightarrow> (case b of None \<Rightarrow> True | Some y \<Rightarrow> x < y))"

text \<open>
  \<^verbatim>\<open>min(pairs, key=...)\<close>: the first element, in iteration order, whose key no other element
  undercuts; ValueError on an empty collection.
\<close>

definition min_by :: "('a \<Rightarrow> nat option) \<Rightarrow> 'a list \<Rightarrow> py_error + 'a" where
  "min_by key xs =
     (case xs of
        [] \<Rightarrow> Inl ValueError
      | x # rest \<Rightarrow> Inr (fold (\<lambda>y best. if prio_less (key y) (key best) then y else best) rest x))"

text \<open>\<^verbatim>\<open>word.index(x, i)\<close>: the first index from \<open>i\<close> on that holds \<open>x\<close>, if there is one.\<close>

fun index_of :: "'a \<Rightarrow> 'a list \<Rightarrow> nat option" where
  "index_of x [] = None"
| "index_of x (y # ys) = (if y = x then Some 0 else map_option Suc (index_of x ys))"

definition index_from :: "'a list \<Rightarrow> 'a \<Rightarrow> nat \<Rightarrow> nat option" where
  "index_from word x i = map_option (\<lambda>k. i + k) (index_of x (drop i word))"

lemma index_of_Some:
  "index_of x ys = Some k \<Longrightarrow> k < length ys \<and> ys ! k = x \<and> x \<notin> set (take k ys)"
proof (induction ys arbitrary: k)
  case Nil
  then show ?case by simp
next
  case (Cons y ys)
  show ?case
  proof (cases "y = x")
    case True
    with Cons.prems show ?thesis by simp
  next
    case False
    with Cons.prems obtain k' where k': "index_of x ys = Some k'" "k = Suc k'"
      by auto
    from Cons.IH [OF k'(1)] False k'(2) show ?thesis by auto
  qed
qed

lemma index_of_None: "index_of x ys = None \<longleftrightarrow> x \<notin> set ys"
  by (induction ys) auto

lemma index_from_Some:
  assumes "index_from word x i = Some j"
  shows "i \<le> j" and "j < length word" and "word ! j = x"
    and "x \<notin> set (take (j - i) (drop i word))"
proof -
  from assms obtain k where k: "index_of x (drop i word) = Some k" "j = i + k"
    by (auto simp: index_from_def)
  from index_of_Some [OF k(1)]
  have *: "k < length (drop i word)" "drop i word ! k = x" "x \<notin> set (take k (drop i word))"
    by auto
  show "i \<le> j" using k(2) by simp
  show "j < length word" using * k(2) by simp
  show "word ! j = x" using * k(2) by simp
  show "x \<notin> set (take (j - i) (drop i word))" using * k(2) by simp
qed

text \<open>
  The inner loop of \<open>encode\<close> (lines 139-153): \<open>i\<close> is the read position, \<open>new_word\<close> the
  symbols written so far. When \<^verbatim>\<open>word.index(first, i)\<close> raises, the rest of the word is
  copied and the loop left.
\<close>

function merge_loop ::
  "string \<Rightarrow> string \<Rightarrow> string list \<Rightarrow> nat \<Rightarrow> string list \<Rightarrow> string list" where
  "merge_loop first second word i new_word =
     (if i < length word then
        (case index_from word first i of
           None \<Rightarrow> new_word @ drop i word
         | Some j \<Rightarrow>
             (let new_word1 = new_word @ take (j - i) (drop i word) in
              if word ! j = first \<and> j < length word - 1 \<and> word ! (j + 1) = second
              then merge_loop first second word (j + 2) (new_word1 @ [first @ second])
              else merge_loop first second word (j + 1) (new_word1 @ [word ! j])))
      else new_word)"
  by pat_completeness auto
termination
proof (relation "measure (\<lambda>(f, s, w, i, n). length w - i)", goal_cases)
  case 1
  show ?case by simp
next
  case (2 first second word i new_word j)
  from index_from_Some(1,2) [OF 2(2)] show ?case by simp
next
  case (3 first second word i new_word j)
  from index_from_Some(1,2) [OF 3(2)] show ?case by simp
qed

declare merge_loop.simps [simp del]


text \<open>
  One merge pass in the words of the specification (step 4 of the segmenter), written by
  recursion on the word: scanning from left to right, an adjacent \<open>first, second\<close> becomes
  the single symbol \<open>first @ second\<close> and both are consumed; any other symbol is copied
  through.
\<close>

fun merge_pass_spec :: "'a list \<Rightarrow> 'a list \<Rightarrow> 'a list list \<Rightarrow> 'a list list" where
  "merge_pass_spec f s (x # y # zs) =
     (if x = f \<and> y = s then (f @ s) # merge_pass_spec f s zs
      else x # merge_pass_spec f s (y # zs))"
| "merge_pass_spec f s xs = xs"

lemma merge_pass_spec_notin: "f \<notin> set xs \<Longrightarrow> merge_pass_spec f s xs = xs"
  by (induction f s xs rule: merge_pass_spec.induct) auto

lemma merge_pass_spec_append_notin:
  "f \<notin> set xs \<Longrightarrow> merge_pass_spec f s (xs @ ys) = xs @ merge_pass_spec f s ys"
proof (induction xs)
  case Nil
  then show ?case by simp
next
  case (Cons x xs)
  then have IH: "merge_pass_spec f s (xs @ ys) = xs @ merge_pass_spec f s ys" and ne: "x \<noteq> f"
    by auto
  show ?case
  proof (cases "xs @ ys")
    case Nil
    then show ?thesis by simp
  next
    case (Cons z zs)
    have "merge_pass_spec f s (x # z # zs) = x # merge_pass_spec f s (z # zs)"
      using ne by simp
    with Cons IH show ?thesis by simp
  qed
qed

lemma merge_pass_spec_length_le: "length (merge_pass_spec f s xs) \<le> length xs"
  by (induction f s xs rule: merge_pass_spec.induct) auto

lemma merge_pass_spec_length_less:
  "(f, s) \<in> set (adjacent_pairs xs) \<Longrightarrow> length (merge_pass_spec f s xs) < length xs"
proof (induction f s xs rule: merge_pass_spec.induct)
  case (1 f s x y zs)
  show ?case
  proof (cases "x = f \<and> y = s")
    case True
    have "length (merge_pass_spec f s zs) \<le> length zs" by (rule merge_pass_spec_length_le)
    with True show ?thesis by simp
  next
    case False
    with "1.prems" have "(f, s) \<in> set (adjacent_pairs (y # zs))" by auto
    with "1.IH"(2) False show ?thesis by auto
  qed
qed simp_all

lemma merge_loop_eq:
  "i \<le> length word \<Longrightarrow>
     merge_loop first second word i new_word = new_word @ merge_pass_spec first second (drop i word)"
proof (induction first second word i new_word rule: merge_loop.induct)
  case (1 first second word i new_word)
  show ?case
  proof (cases "i < length word")
    case False
    then show ?thesis by (subst merge_loop.simps) simp
  next
    case lt: True
    show ?thesis
    proof (cases "index_from word first i")
      case None
      then have "first \<notin> set (drop i word)"
        by (simp add: index_from_def index_of_None)
      then have "merge_pass_spec first second (drop i word) = drop i word"
        by (rule merge_pass_spec_notin)
      with lt None show ?thesis by (simp add: merge_loop.simps [of _ _ _ i])
    next
      case (Some j)
      note j = index_from_Some [OF Some]
      let ?pre = "take (j - i) (drop i word)"
      have split: "drop i word = ?pre @ drop j word"
      proof -
        have "drop i word = ?pre @ drop (j - i) (drop i word)"
          by (rule append_take_drop_id [symmetric])
        also have "drop (j - i) (drop i word) = drop j word" using j(1) by simp
        finally show ?thesis .
      qed
      have pre: "merge_pass_spec first second (drop i word)
                   = ?pre @ merge_pass_spec first second (drop j word)"
        using merge_pass_spec_append_notin [OF j(4), of second "drop j word"] split by simp
      have dj: "drop j word = first # drop (Suc j) word"
        using j(2,3) Cons_nth_drop_Suc [of j word] by simp
      show ?thesis
      proof (cases "word ! j = first \<and> j < length word - 1 \<and> word ! (j + 1) = second")
        case True
        then have "j < length word - 1" by simp
        then have "Suc j < length word" by linarith
        then have dj1: "drop (Suc j) word = second # drop (Suc (Suc j)) word"
          using True Cons_nth_drop_Suc [of "Suc j" word] by simp
        have le: "j + 2 \<le> length word" using \<open>Suc j < length word\<close> by simp
        have "merge_loop first second word i new_word
                = merge_loop first second word (j + 2) ((new_word @ ?pre) @ [first @ second])"
          by (subst merge_loop.simps)
             (simp only: lt Some True if_True option.case Let_def simp_thms)
        also have "\<dots> = ((new_word @ ?pre) @ [first @ second])
                           @ merge_pass_spec first second (drop (j + 2) word)"
          using "1.IH"(1) [OF lt Some refl True le] .
        also have "\<dots> = new_word @ merge_pass_spec first second (drop i word)"
          using pre dj dj1 by simp
        finally show ?thesis .
      next
        case False
        have le: "j + 1 \<le> length word" using j(2) by simp
        have mp: "merge_pass_spec first second (drop j word)
                    = first # merge_pass_spec first second (drop (Suc j) word)"
        proof (cases "drop (Suc j) word")
          case Nil
          with dj show ?thesis by simp
        next
          case (Cons y ys)
          then have "Suc j < length word" by (cases "Suc j < length word") auto
          then have "word ! (j + 1) = y" using Cons by (simp add: hd_drop_conv_nth [symmetric])
          with False j(3) \<open>Suc j < length word\<close> have "y \<noteq> second" by auto
          with dj Cons show ?thesis by simp
        qed
        have "merge_loop first second word i new_word
                = merge_loop first second word (j + 1) ((new_word @ ?pre) @ [word ! j])"
          by (subst merge_loop.simps)
             (simp only: lt Some False if_True if_False option.case Let_def simp_thms)
        also have "\<dots> = ((new_word @ ?pre) @ [word ! j])
                           @ merge_pass_spec first second (drop (j + 1) word)"
          using "1.IH"(2) [OF lt Some refl False le] .
        also have "\<dots> = new_word @ merge_pass_spec first second (drop i word)"
          using pre mp j(3) by simp
        finally show ?thesis .
      qed
    qed
  qed
qed

lemma merge_loop_merge_pass_spec: "merge_loop first second word 0 [] = merge_pass_spec first second word"
  using merge_loop_eq [of 0 word first second "[]"] by simp

lemma min_by_in: "min_by key xs = Inr b \<Longrightarrow> b \<in> set xs"
proof -
  have fold_in: "fold (\<lambda>y best. if prio_less (key y) (key best) then y else best) ys x
                   \<in> insert x (set ys)" for ys x
    by (induction ys arbitrary: x) (auto split: if_splits)
  assume "min_by key xs = Inr b"
  then show ?thesis
    using fold_in by (cases xs) (auto simp: min_by_def)
qed

text \<open>
  The loop \<^verbatim>\<open>while True\<close> of \<open>encode\<close> (lines 132-159). The source keeps
  \<^verbatim>\<open>pairs = get_pairs(word)\<close> in a variable that it refreshes whenever \<open>word\<close> changes; the
  model computes it at the head of each iteration.
\<close>

function encode_loop :: "merge_table \<Rightarrow> string list \<Rightarrow> py_error + string list" where
  "encode_loop codes word =
     (case get_pairs word of
        Inl e \<Rightarrow> Inl e
      | Inr pairs \<Rightarrow>
          (case min_by (priority codes) pairs of
             Inl e \<Rightarrow> Inl e
           | Inr bigram \<Rightarrow>
               if \<not> has_key codes [fst bigram, snd bigram] then Inr word
               else
                 (let new_word = merge_loop (fst bigram) (snd bigram) word 0 [] in
                  if length new_word = 1 then Inr new_word
                  else encode_loop codes new_word)))"
  by pat_completeness auto
termination
proof (relation "measure (\<lambda>(codes, word). length word)", goal_cases)
  case 1
  show ?case by simp
next
  case (2 codes word pairs bigram new_word)
  from 2(1) have pairs: "pairs = remdups (adjacent_pairs word)"
    by (auto simp: get_pairs_def split: if_splits)
  from min_by_in [OF 2(2)] pairs have "(fst bigram, snd bigram) \<in> set (adjacent_pairs word)"
    by simp
  from merge_pass_spec_length_less [OF this] 2(4) show ?case
    by (simp add: merge_loop_merge_pass_spec)
qed

declare encode_loop.simps [simp del]

text \<open>The removal of the end-of-word marker (lines 161-165).\<close>

definition strip_end_of_word :: "string list \<Rightarrow> py_error + string list" where
  "strip_end_of_word word =
     (if word = [] then Inl IndexError
      else if last word = ''</w>'' then Inr (butlast word)
      else if endswith (last word) ''</w>''
      then Inr (butlast word @ [remove_all ''</w>'' (last word)])
      else Inr word)"

text \<open>
  \<open>encode\<close> without its cache: lines 129-165. \<^verbatim>\<open>tuple(orig)\<close> makes one symbol of each
  character.
\<close>

definition encode_word :: "string \<Rightarrow> merge_table \<Rightarrow> py_error + string list" where
  "encode_word orig codes =
     (case encode_loop codes (map (\<lambda>c. [c]) orig @ [''</w>'']) of
        Inl e \<Rightarrow> Inl e
      | Inr word \<Rightarrow> strip_end_of_word word)"

text \<open>
  \<^verbatim>\<open>encode(orig, bpe_codes, cache=None)\<close>. The argument is \<open>None\<close> when the caller passes no
  cache; the dictionary the call then works on is a new, empty one. The result is the
  returned word together with the contents of that dictionary when the call returns.
\<close>

type_synonym cache = "string \<rightharpoonup> string list"

definition encode ::
  "string \<Rightarrow> merge_table \<Rightarrow> cache option \<Rightarrow> py_error + (string list \<times> cache)" where
  "encode orig codes cache_arg =
     (let cache = (case cache_arg of None \<Rightarrow> Map.empty | Some c \<Rightarrow> c) in
      if has_key cache orig then Inr (the (cache orig), cache)
      else (case encode_word orig codes of
              Inl e \<Rightarrow> Inl e
            | Inr word \<Rightarrow> Inr (word, cache(orig \<mapsto> word))))"

text \<open>
  \<^verbatim>\<open>BPE.segment(sentence)\<close>. The call \<^verbatim>\<open>encode(word, self.bpe_codes)\<close> passes no cache, and
  the dictionary that \<open>encode\<close> fills is not kept anywhere. \<^verbatim>\<open>new_word[-1]\<close> of an empty
  result raises IndexError.
\<close>

fun segment_words :: "BPE \<Rightarrow> string list \<Rightarrow> string list \<Rightarrow> py_error + string list" where
  "segment_words self [] output = Inr output"
| "segment_words self (word # rest) output =
     (if ignore self \<noteq> None \<and> word \<in> set (the (ignore self))
      then segment_words self rest (output @ [word])
      else (case encode word (bpe_codes self) None of
              Inl e \<Rightarrow> Inl e
            | Inr (new_word, _) \<Rightarrow>
                if new_word = [] then Inl IndexError
                else segment_words self rest
                       (output @ map (\<lambda>item. item @ separator self) (butlast new_word)
                               @ [last new_word])))"

definition segment :: "BPE \<Rightarrow> string \<Rightarrow> py_error + string" where
  "segment self sentence =
     (case segment_words self (split_str sentence) [] of
        Inl e \<Rightarrow> Inl e
      | Inr output \<Rightarrow> Inr (join '' '' output))"


section \<open>The tokenizer adapter\<close>

text \<open>
  The external tokenizer is a process behind two pipes. \<open>tokenizer_stdin_open\<close> says
  whether the process still reads its input: when it has exited, the write and flush of
  lines 223-224 raise IOError (broken pipe). \<open>tokenizer_stdin\<close> is what has been written
  to it; \<open>tokenizer_stdout\<close> is what its output pipe will still deliver, one element per
  \<^verbatim>\<open>readline()\<close>, each a line with its newline. When the list is exhausted the stream is
  closed, and \<^verbatim>\<open>readline()\<close> returns the empty string. A process may close its output and
  still read its input. \<open>bpe\<close> is set by the constructor only when \<open>use_subword\<close> holds.
\<close>

record DataProcessor =
  use_subword :: bool
  bpe :: "BPE option"
  lang :: string
  tokenizer_stdin_open :: bool
  tokenizer_stdin :: "string list"
  tokenizer_stdout :: "string list"

fun readline :: "string list \<Rightarrow> string \<times> string list" where
  "readline [] = ([], [])"
| "readline (l # ls) = (l, ls)"

text \<open>
  \<^verbatim>\<open>segment = '\n'\<close> followed by \<^verbatim>\<open>while segment == '\n': segment = readline()\<close>: the first line
  read that is not exactly one newline ends the loop, and so does the empty string of a
  closed stream.
\<close>

fun read_segment :: "string list \<Rightarrow> string \<times> string list" where
  "read_segment [] = ([], [])"
| "read_segment (l # ls) = (if l = [CHR 0x0A] then read_segment ls else (l, ls))"

definition tokenize ::
  "DataProcessor \<Rightarrow> string \<Rightarrow> py_error + (string list \<times> DataProcessor)" where
  "tokenize self text =
     (if length (strip text) = 0 then Inr ([], self)
      else if \<not> tokenizer_stdin_open self then Inl IOError
      else
        (let written = tokenizer_stdin self @ [text @ [CHR 0x0A, CHR 0x0A]];
             (seg, out1) = read_segment (tokenizer_stdout self);
             (_, out2) = readline out1;
             self1 = self\<lparr>tokenizer_stdin := written, tokenizer_stdout := out2\<rparr>;
             utf_line = rstrip_bytes seg
         in if use_subword self
            then (case bpe self of
                    None \<Rightarrow> Inl AttributeError
                  | Some b \<Rightarrow>
                      (case segment b utf_line of
                         Inl e \<Rightarrow> Inl e
                       | Inr segmented \<Rightarrow> Inr (split_str segmented, self1)))
            else Inr (split_str utf_line, self1)))"

section \<open>The span annotation converter\<close>

text \<open>
  An annotation is \<open>None\<close> or an indexable value, of which the converter reads only element 0:
  a tuple whose first component identifies the constraint, or a string. Elements are
  values other than Python's \<open>None\<close>.
\<close>

record 'a span_state =
  span_annotations :: "(nat \<times> nat) list"
  output_sequence :: string
  constraint_id :: "'a option"
  constraint_start_idx :: "nat option"

text \<open>
  Lines 80-94 for one token: the start of a constraint, or the end of one. \<^verbatim>\<open>annotation[0]\<close>
  of an empty annotation raises IndexError. The start index appended at the end of a
  constraint is the one set when \<open>constraint_id\<close> was set.
\<close>

definition annotate :: "'a list option \<Rightarrow> 'a span_state \<Rightarrow> py_error + 'a span_state" where
  "annotate annotation st =
     (case annotation of
        Some a \<Rightarrow>
          (if a = [] then Inl IndexError
           else if Some (hd a) \<noteq> constraint_id st
           then Inr (st\<lparr>constraint_start_idx :=
                           Some (if length (output_sequence st) > 0
                                 then length (output_sequence st) + 1
                                 else length (output_sequence st)),
                         constraint_id := Some (hd a)\<rparr>)
           else Inr st)
      | None \<Rightarrow>
          (if constraint_id st \<noteq> None
           then Inr (st\<lparr>span_annotations :=
                           span_annotations st
                             @ [(the (constraint_start_idx st), length (output_sequence st))],
                         constraint_id := None,
                         constraint_start_idx := None\<rparr>)
           else Inr st))"

text \<open>The loop over \<^verbatim>\<open>zip(token_sequence, constraint_annotations)\<close>.\<close>

fun convert_loop ::
  "(string \<times> 'a list option) list \<Rightarrow> 'a span_state \<Rightarrow> py_error + 'a span_state" where
  "convert_loop [] st = Inr st"
| "convert_loop ((token, annotation) # rest) st =
     (case annotate annotation st of
        Inl e \<Rightarrow> Inl e
      | Inr st1 \<Rightarrow>
          convert_loop rest
            (st1\<lparr>output_sequence :=
                   (if length (output_sequence st1) = 0 then token
                    else output_sequence st1 @ '' '' @ token)\<rparr>))"

text \<open>
  Whenever \<open>constraint_id\<close> is set, so is \<open>constraint_start_idx\<close>: the two are assigned and
  cleared together.
\<close>

definition start_known :: "'a span_state \<Rightarrow> bool" where
  "start_known st = (constraint_id st = None \<or> constraint_start_idx st \<noteq> None)"

lemma annotate_start_known:
  "start_known st \<Longrightarrow> annotate annotation st = Inr st' \<Longrightarrow> start_known st'"
  by (auto simp: start_known_def annotate_def split: option.splits if_splits)

lemma convert_loop_start_known:
  "start_known st \<Longrightarrow> convert_loop items st = Inr st' \<Longrightarrow> start_known st'"
proof (induction items arbitrary: st)
  case Nil
  then show ?case by simp
next
  case (Cons item items)
  obtain token annotation where item: "item = (token, annotation)" by (cases item)
  from Cons.prems(2) item obtain st1
    where st1: "annotate annotation st = Inr st1"
      and rest: "convert_loop items
                   (st1\<lparr>output_sequence :=
                          (if length (output_sequence st1) = 0 then token
                           else output_sequence st1 @ '' '' @ token)\<rparr>) = Inr st'"
    by (auto split: sum.splits)
  from annotate_start_known [OF Cons.prems(1) st1]
  have "start_known (st1\<lparr>output_sequence :=
                           (if length (output_sequence st1) = 0 then token
                            else output_sequence st1 @ '' '' @ token)\<rparr>)"
    by (simp add: start_known_def)
  from Cons.IH [OF this rest] show ?case .
qed

definition convert_token_annotations_to_spans ::
  "string list \<Rightarrow> 'a list option list \<Rightarrow> py_error + ((nat \<times> nat) list \<times> string)" where
  "convert_token_annotations_to_spans token_sequence constraint_annotations =
     (if length token_sequence \<noteq> length constraint_annotations then Inl AssertionError
      else (case convert_loop (zip token_sequence constraint_annotations)
                   \<lparr>span_annotations = [], output_sequence = [], constraint_id = None,
                    constraint_start_idx = None\<rparr> of
              Inl e \<Rightarrow> Inl e
            | Inr st \<Rightarrow> Inr (span_annotations st, output_sequence st)))"


section \<open>Facts about dictionaries, the merge table and the selection of a pair\<close>

lemma dict_of_fold:
  "fold (\<lambda>(k, v) m. m(k \<mapsto> v)) items m0 = m0 ++ map_of (rev items)"
proof (induction items arbitrary: m0)
  case Nil
  show ?case by simp
next
  case (Cons kv items)
  obtain k v where kv: "kv = (k, v)" by (cases kv)
  have "fold (\<lambda>(k, v) m. m(k \<mapsto> v)) (kv # items) m0
          = fold (\<lambda>(k, v) m. m(k \<mapsto> v)) items (m0(k \<mapsto> v))"
    by (simp add: kv)
  also have "\<dots> = (m0(k \<mapsto> v)) ++ map_of (rev items)"
    by (rule Cons.IH)
  also have "\<dots> = m0 ++ map_of (rev items @ [(k, v)])"
  proof
    fix a
    show "((m0(k \<mapsto> v)) ++ map_of (rev items)) a = (m0 ++ map_of (rev items @ [(k, v)])) a"
      by (cases "map_of (rev items) a") (simp_all add: map_add_def)
  qed
  finally show ?case by (simp only: kv rev.simps)
qed

lemma dict_of_map_of: "dict_of items = map_of (rev items)"
  by (simp add: dict_of_def dict_of_fold)

lemma has_key_dict_of: "has_key (dict_of items) k \<longleftrightarrow> k \<in> fst ` set items"
  by (simp add: has_key_def dict_of_map_of map_of_eq_None_iff)

lemma map_of_zip_index_of:
  "map_of (zip xs [a..<a + length xs]) k = map_option (\<lambda>i. a + i) (index_of k xs)"
proof (induction xs arbitrary: a)
  case Nil
  show ?case by simp
next
  case (Cons x xs)
  have upt: "[a..<a + length (x # xs)] = a # [Suc a..<Suc a + length xs]"
    using upt_conv_Cons [of a "a + length (x # xs)"] by simp
  show ?case
    using Cons.IH [of "Suc a"]
    by (simp only: upt zip_Cons_Cons map_of.simps index_of.simps)
       (auto simp: option.map_comp comp_def)
qed

lemma index_of_first:
  "i < length xs \<Longrightarrow> xs ! i = k \<Longrightarrow> \<forall>j<i. xs ! j \<noteq> k \<Longrightarrow> index_of k xs = Some i"
proof (induction xs arbitrary: i)
  case Nil
  then show ?case by simp
next
  case (Cons x xs)
  show ?case
  proof (cases i)
    case 0
    with Cons.prems show ?thesis by simp
  next
    case (Suc i')
    with Cons.prems have "x \<noteq> k" by auto
    moreover have "index_of k xs = Some i'"
    proof (rule Cons.IH)
      show "i' < length xs" using Cons.prems Suc by simp
      show "xs ! i' = k" using Cons.prems Suc by simp
      show "\<forall>j<i'. xs ! j \<noteq> k"
      proof (intro allI impI)
        fix j assume "j < i'"
        then have "Suc j < i" using Suc by simp
        with Cons.prems(3) have "(x # xs) ! Suc j \<noteq> k" by blast
        then show "xs ! j \<noteq> k" by simp
      qed
    qed
    ultimately show ?thesis using Suc by simp
  qed
qed

lemma BPE_init_codes:
  "bpe_codes (BPE_init codes sep ign)
     = map_of (zip (map split_str codes) [0..<length codes])"
proof -
  let ?xs = "map split_str codes"
  have "map (\<lambda>(i, code). (code, i)) (zip [0..<length ?xs] ?xs) = zip ?xs [0..<length ?xs]"
    by (simp add: zip_commute [of ?xs] case_prod_unfold)
  then have "rev (map (\<lambda>(i, code). (code, i)) (rev (enumerate_list ?xs)))
               = zip ?xs [0..<length ?xs]"
    by (simp add: enumerate_list_def rev_map)
  then show ?thesis
    by (simp add: BPE_init_def dict_of_map_of)
qed

lemma BPE_init_lookup:
  "bpe_codes (BPE_init codes sep ign) k = index_of k (map split_str codes)"
  using map_of_zip_index_of [of "map split_str codes" 0 k]
  by (simp add: BPE_init_codes option.map_ident)

lemma prio_less_not_trans:
  "\<not> prio_less a b \<Longrightarrow> \<not> prio_less b c \<Longrightarrow> \<not> prio_less a c"
  by (auto simp: prio_less_def split: option.splits)

lemma prio_less_asym: "prio_less a b \<Longrightarrow> \<not> prio_less b a"
  by (auto simp: prio_less_def split: option.splits)

lemma prio_less_irrefl: "\<not> prio_less a a"
  by (auto simp: prio_less_def split: option.splits)

lemma fold_min_least:
  fixes key :: "'a \<Rightarrow> nat option"
  defines "step \<equiv> (\<lambda>y best. if prio_less (key y) (key best) then y else best)"
  shows "\<not> prio_less (key x) (key (fold step ys x))
         \<and> (\<forall>y\<in>set ys. \<not> prio_less (key y) (key (fold step ys x)))"
proof (induction ys arbitrary: x)
  case Nil
  show ?case by (simp add: prio_less_irrefl)
next
  case (Cons y ys)
  let ?x' = "step y x"
  let ?r = "fold step ys ?x'"
  from Cons.IH [of ?x']
  have r1: "\<not> prio_less (key ?x') (key ?r)"
    and r2: "\<forall>z\<in>set ys. \<not> prio_less (key z) (key ?r)" by auto
  have x: "\<not> prio_less (key x) (key ?x')"
    by (auto simp: step_def prio_less_irrefl dest: prio_less_asym)
  have y: "\<not> prio_less (key y) (key ?x')"
    by (auto simp: step_def prio_less_irrefl)
  from prio_less_not_trans [OF x r1] prio_less_not_trans [OF y r1] r2
  show ?case by simp
qed

lemma min_by_least:
  assumes "min_by key xs = Inr b"
  shows "\<forall>y\<in>set xs. \<not> prio_less (key y) (key b)"
proof (cases xs)
  case Nil
  with assms show ?thesis by (simp add: min_by_def)
next
  case (Cons x rest)
  with assms have b: "b = fold (\<lambda>y best. if prio_less (key y) (key best) then y else best) rest x"
    by (simp add: min_by_def)
  from fold_min_least [of key x rest] show ?thesis
    unfolding Cons b by simp
qed

text \<open>
  The order in which the pairs are enumerated does not matter for the selection: a table
  built by \<open>BPE_init\<close> gives different keys different priorities, and under such a table
  the pair selected from two enumerations of the same set is the same, whenever it is in
  the table. When it is not, the merge loop ends whichever pair was selected.
\<close>

lemma BPE_init_priorities_distinct:
  assumes "bpe_codes (BPE_init codes sep ign) k1 = Some i"
    and "bpe_codes (BPE_init codes sep ign) k2 = Some i"
  shows "k1 = k2"
proof -
  from assms have "index_of k1 (map split_str codes) = Some i"
    "index_of k2 (map split_str codes) = Some i"
    by (simp_all add: BPE_init_lookup)
  then have "map split_str codes ! i = k1" "map split_str codes ! i = k2"
    by (auto dest: index_of_Some)
  then show ?thesis by simp
qed

lemma min_by_order_independent:
  assumes "min_by (priority codes) xs = Inr b"
    and "min_by (priority codes) ys = Inr b'"
    and "set xs = set ys"
    and "has_key codes [fst b, snd b]"
    and "\<And>k1 k2 i. codes k1 = Some i \<Longrightarrow> codes k2 = Some i \<Longrightarrow> k1 = k2"
  shows "b' = b"
proof -
  from min_by_in [OF assms(1)] min_by_in [OF assms(2)] assms(3)
  have "b \<in> set ys" "b' \<in> set xs" by auto
  with min_by_least [OF assms(1)] min_by_least [OF assms(2)]
  have n1: "\<not> prio_less (priority codes b') (priority codes b)"
    and n2: "\<not> prio_less (priority codes b) (priority codes b')" by auto
  from assms(4) obtain i where i: "priority codes b = Some i"
    by (auto simp: has_key_def priority_def)
  with n1 n2 have "priority codes b' = Some i"
    by (auto simp: prio_less_def split: option.splits)
  with i have "codes [fst b', snd b'] = Some i" "codes [fst b, snd b] = Some i"
    by (simp_all add: priority_def)
  then have "[fst b', snd b'] = [fst b, snd b]" by (rule assms(5))
  then show ?thesis by (simp add: prod_eq_iff)
qed

lemma read_segment_in: "read_segment ls = (seg, rest) \<Longrightarrow> seg = [] \<or> seg \<in> set ls"
  by (induction ls) (auto split: if_splits)

lemma rstrip_bytes_blank: "\<forall>c\<in>set s. is_space_bytes c \<Longrightarrow> rstrip_bytes s = []"
  by (simp add: rstrip_bytes_def dropWhile_eq_Nil_conv)

lemma segment_empty: "segment b [] = Inr []"
  by (simp add: segment_def split_str_def)

section \<open>The example of the remapper (C1)\<close>

text \<open>
  C1, as the specification states it: for \<open>tokenized = "fo@@ o bar"\<close>,
  \<open>detokenized = "foo bar"\<close> and the span \<open>[[0,5]]\<close> the remapper returns \<open>[[0,3]]\<close>. The
  remapper does not: the end offset 5 is met while the separator is skipped, two kept
  characters after the start.
\<close>

theorem remap_example_counterexample:
  "remap_constraint_indices ''fo@@ o bar'' ''foo bar'' [(0, 5)] \<noteq> Inr [(0, 3)]"
  by code_simp

text \<open>
  C1, amended: for \<open>tokenized = "fo@@ o bar"\<close>, \<open>detokenized = "foo bar"\<close> the span \<open>[[0,5]]\<close>
  is remapped to \<open>[[0,2]]\<close>; the span that covers the six characters \<open>fo@@ o\<close> is \<open>[[0,6]]\<close>,
  and it is remapped to \<open>[[0,3]]\<close>, which covers \<open>foo\<close>.
\<close>

theorem remap_example:
  "remap_constraint_indices ''fo@@ o bar'' ''foo bar'' [(0, 5)] = Inr [(0, 2)]
   \<and> remap_constraint_indices ''fo@@ o bar'' ''foo bar'' [(0, 6)] = Inr [(0, 3)]"
  by code_simp

section \<open>The example of the span annotation converter (C2)\<close>

text \<open>
  C2 states that \<open>to_spans(["foo","bar","baz"], [None, "c1", "c1"])\<close> returns the text
  \<open>"foo bar baz"\<close> with the spans \<open>[[4,11]]\<close>, a run of equal tags that reaches the end of the
  tokens giving one closed span. The converter closes a span only when it meets a token
  without a tag, and nothing closes the span that is open when the tokens end: on this input
  it returns the text with no span at all.
\<close>

theorem convert_example_final_run:
  "convert_token_annotations_to_spans [''foo'', ''bar'', ''baz''] [None, Some ''c1'', Some ''c1'']
     = Inr ([], ''foo bar baz'')"
  by (simp add: convert_token_annotations_to_spans_def annotate_def)

section \<open>The segmentation cache (C3)\<close>

text \<open>
  C3 states that a segmenter keeps the segmented words in a cache for its lifetime, so that
  a word seen before is not segmented again. \<open>segment\<close> calls \<open>encode\<close> without a cache: each
  call works on a new empty dictionary, runs the merge algorithm, and the dictionary it
  leaves holds that one word and is dropped.
\<close>

theorem encode_without_cache_recomputes:
  "encode orig codes None =
     (case encode_word orig codes of
        Inl e \<Rightarrow> Inl e
      | Inr word \<Rightarrow> Inr (word, [orig \<mapsto> word]))"
  by (simp add: encode_def has_key_def)

section \<open>Malformed declarations of the merge table (C5)\<close>

text \<open>
  C5 states that the construction of the merge table fails when a declaration does not
  split into exactly two fields. The constructor has no such test: the declarations
  \<open>a b c\<close>, \<open>d\<close> and the empty line are accepted and become keys of the table.
\<close>

theorem BPE_init_malformed_counterexample:
  "bpe_codes (BPE_init [''a b c'', ''d'', ''''] ''@@'' None) [''a'', ''b'', ''c''] = Some 0
   \<and> bpe_codes (BPE_init [''a b c'', ''d'', ''''] ''@@'' None) [''d''] = Some 1
   \<and> bpe_codes (BPE_init [''a b c'', ''d'', ''''] ''@@'' None) [] = Some 2"
  by (simp add: BPE_init_lookup split_str_def is_space_def)

text \<open>
  C5, amended: the construction of the merge table succeeds for every sequence of
  declarations, and the keys of the table are exactly the tuples of fields of the
  declarations, whatever their number of fields.
\<close>

theorem BPE_init_keeps_every_declaration:
  "dom (bpe_codes (BPE_init codes sep ign)) = set (map split_str codes)"
  by (auto simp: BPE_init_lookup dom_def index_of_None)

section \<open>Duplicate declarations of the merge table (C8)\<close>

text \<open>
  C8: when a pair \<open>(first, second)\<close> is declared more than once, the table gives it the
  position of its earliest declaration; later declarations of the pair change nothing.
  Stated for any position \<open>i\<close> that declares the pair with no earlier declaration of it.
\<close>

theorem BPE_init_first_occurrence:
  assumes "i < length codes"
    and "split_str (codes ! i) = [first, second]"
    and "\<forall>j<i. split_str (codes ! j) \<noteq> [first, second]"
  shows "bpe_codes (BPE_init codes sep ign) [first, second] = Some i"
proof -
  have "index_of [first, second] (map split_str codes) = Some i"
    using assms by (intro index_of_first) auto
  then show ?thesis by (simp add: BPE_init_lookup)
qed

theorem BPE_init_first_occurrence_witness:
  "(1::nat) < length [''x y'', ''a b'', ''c d'', ''a  b'']
   \<and> split_str ([''x y'', ''a b'', ''c d'', ''a  b''] ! 1) = [''a'', ''b'']
   \<and> split_str ([''x y'', ''a b'', ''c d'', ''a  b''] ! 3) = [''a'', ''b'']
   \<and> split_str ([''x y'', ''a b'', ''c d'', ''a  b''] ! 0) \<noteq> [''a'', ''b'']
   \<and> bpe_codes (BPE_init [''x y'', ''a b'', ''c d'', ''a  b''] ''@@'' None) [''a'', ''b''] = Some 1"
  using BPE_init_first_occurrence [of 1 "[''x y'', ''a b'', ''c d'', ''a  b'']" "''a''" "''b''" "''@@''" None]
  by (simp add: split_str_def is_space_def)

section \<open>One merge pass of the segmenter (C9)\<close>

text \<open>
  C9: in every iteration of the merge loop, with \<open>(first, second)\<close> the pair it selects: the
  pair is adjacent in the word and no adjacent pair has a lower priority; the inner loop
  computes \<open>merge_pass_spec\<close>, the left-to-right pass that merges every non-overlapping
  occurrence of the pair and copies the other symbols; and the loop does exactly this:
  when the pair is in the table it replaces the word by the result of the pass, returns it
  when it is a single symbol and iterates on it otherwise; when the pair is not in the
  table it returns the word as it is.
\<close>

theorem encode_loop_merge_pass:
  assumes "get_pairs word = Inr pairs"
    and "min_by (priority codes) pairs = Inr (first, second)"
  shows "(first, second) \<in> set (adjacent_pairs word)
         \<and> (\<forall>p\<in>set (adjacent_pairs word).
               \<not> prio_less (priority codes p) (priority codes (first, second)))
         \<and> merge_loop first second word 0 [] = merge_pass_spec first second word
         \<and> encode_loop codes word =
             (if has_key codes [first, second]
              then (if length (merge_pass_spec first second word) = 1
                    then Inr (merge_pass_spec first second word)
                    else encode_loop codes (merge_pass_spec first second word))
              else Inr word)"
proof -
  from assms(1) have pairs: "pairs = remdups (adjacent_pairs word)"
    by (auto simp: get_pairs_def split: if_splits)
  have "(first, second) \<in> set (adjacent_pairs word)"
    using min_by_in [OF assms(2)] pairs by simp
  moreover have "\<forall>p\<in>set (adjacent_pairs word).
                   \<not> prio_less (priority codes p) (priority codes (first, second))"
    using min_by_least [OF assms(2)] pairs by simp
  moreover have "encode_loop codes word =
             (if has_key codes [first, second]
              then (if length (merge_pass_spec first second word) = 1
                    then Inr (merge_pass_spec first second word)
                    else encode_loop codes (merge_pass_spec first second word))
              else Inr word)"
    by (subst encode_loop.simps) (simp add: assms merge_loop_merge_pass_spec)
  ultimately show ?thesis by (simp add: merge_loop_merge_pass_spec)
qed

theorem encode_loop_merge_pass_witness:
  "get_pairs [''a'', ''b'', ''c'', ''a'', ''b'', ''</w>'']
     = Inr [(''b'', ''c''), (''c'', ''a''), (''a'', ''b''), (''b'', ''</w>'')]
   \<and> min_by (priority (bpe_codes (BPE_init [''a b'', ''c a''] ''@@'' None)))
        [(''b'', ''c''), (''c'', ''a''), (''a'', ''b''), (''b'', ''</w>'')] = Inr (''a'', ''b'')
   \<and> has_key (bpe_codes (BPE_init [''a b'', ''c a''] ''@@'' None)) [''a'', ''b'']
   \<and> merge_loop ''a'' ''b'' [''a'', ''b'', ''c'', ''a'', ''b'', ''</w>''] 0 []
        = [''ab'', ''c'', ''ab'', ''</w>'']
   \<and> get_pairs [''ab'', ''c'', ''ab'', ''</w>'']
        = Inr [(''ab'', ''c''), (''c'', ''ab''), (''ab'', ''</w>'')]
   \<and> min_by (priority (bpe_codes (BPE_init [''a b'', ''c a''] ''@@'' None)))
        [(''ab'', ''c''), (''c'', ''ab''), (''ab'', ''</w>'')] = Inr (''ab'', ''c'')
   \<and> \<not> has_key (bpe_codes (BPE_init [''a b'', ''c a''] ''@@'' None)) [''ab'', ''c'']
   \<and> encode_loop (bpe_codes (BPE_init [''a b'', ''c a''] ''@@'' None))
        [''a'', ''b'', ''c'', ''a'', ''b'', ''</w>'']
       = Inr [''ab'', ''c'', ''ab'', ''</w>'']
   \<and> encode_word ''abcab'' (bpe_codes (BPE_init [''a b'', ''c a''] ''@@'' None))
       = Inr [''ab'', ''c'', ''ab'']"
proof -
  let ?T = "bpe_codes (BPE_init [''a b'', ''c a''] ''@@'' None)"
  have first_pass:
    "get_pairs [''a'', ''b'', ''c'', ''a'', ''b'', ''</w>'']
       = Inr [(''b'', ''c''), (''c'', ''a''), (''a'', ''b''), (''b'', ''</w>'')]
     \<and> min_by (priority ?T)
          [(''b'', ''c''), (''c'', ''a''), (''a'', ''b''), (''b'', ''</w>'')] = Inr (''a'', ''b'')
     \<and> has_key ?T [''a'', ''b'']
     \<and> merge_loop ''a'' ''b'' [''a'', ''b'', ''c'', ''a'', ''b'', ''</w>''] 0 []
          = [''ab'', ''c'', ''ab'', ''</w>'']
     \<and> encode_loop ?T [''a'', ''b'', ''c'', ''a'', ''b'', ''</w>'']
          = encode_loop ?T [''ab'', ''c'', ''ab'', ''</w>'']"
    using encode_loop_merge_pass
      [of "[''a'', ''b'', ''c'', ''a'', ''b'', ''</w>'']"
          "[(''b'', ''c''), (''c'', ''a''), (''a'', ''b''), (''b'', ''</w>'')]"
          ?T "''a''" "''b''"]
    by (simp add: get_pairs_def min_by_def priority_def prio_less_def has_key_def
          BPE_init_lookup split_str_def is_space_def)
  have last_pass:
    "get_pairs [''ab'', ''c'', ''ab'', ''</w>'']
       = Inr [(''ab'', ''c''), (''c'', ''ab''), (''ab'', ''</w>'')]
     \<and> min_by (priority ?T) [(''ab'', ''c''), (''c'', ''ab''), (''ab'', ''</w>'')]
          = Inr (''ab'', ''c'')
     \<and> \<not> has_key ?T [''ab'', ''c'']
     \<and> encode_loop ?T [''ab'', ''c'', ''ab'', ''</w>''] = Inr [''ab'', ''c'', ''ab'', ''</w>'']"
    using encode_loop_merge_pass
      [of "[''ab'', ''c'', ''ab'', ''</w>'']"
          "[(''ab'', ''c''), (''c'', ''ab''), (''ab'', ''</w>'')]"
          ?T "''ab''" "''c''"]
    by (simp add: get_pairs_def min_by_def priority_def prio_less_def has_key_def
          BPE_init_lookup split_str_def is_space_def)
  have word: "encode_word ''abcab'' ?T = Inr [''ab'', ''c'', ''ab'']"
    using first_pass last_pass
    by (simp add: encode_word_def strip_end_of_word_def)
  from first_pass last_pass word show ?thesis by simp
qed

section \<open>A closed tokenizer stream (C6)\<close>

text \<open>
  C6 states that \<open>tokenize\<close> fails when the output of the tokenizer closes before a non-blank
  line. With a tokenizer that has closed its output from the start and still reads its
  input, the write succeeds and \<open>tokenize\<close> of \<open>hello\<close> returns the empty list of tokens.
\<close>

theorem tokenize_closed_stream_counterexample:
  "tokenize \<lparr>use_subword = False, bpe = None, lang = ''en'', tokenizer_stdin_open = True,
             tokenizer_stdin = [], tokenizer_stdout = []\<rparr> ''hello''
     = Inr ([], \<lparr>use_subword = False, bpe = None, lang = ''en'', tokenizer_stdin_open = True,
                 tokenizer_stdin = [''hello'' @ [CHR 0x0A, CHR 0x0A]], tokenizer_stdout = []\<rparr>)"
  by (simp add: tokenize_def strip_def is_space_def rstrip_bytes_def split_str_def)

text \<open>
  C6, amended: for a non-blank input, when the output of the tokenizer closes before it
  has produced a non-blank line (every line it delivers is whitespace): if the tokenizer
  no longer reads its input, the call fails at the write with IOError (broken pipe); if
  the write succeeds, \<open>tokenize\<close> returns the empty list of tokens and raises nothing (with a
  subword model, provided the processor holds one).
\<close>

theorem tokenize_closed_stream:
  assumes "strip text \<noteq> []"
    and "\<forall>l\<in>set (tokenizer_stdout self). \<forall>c\<in>set l. is_space_bytes c"
    and "use_subword self \<longrightarrow> bpe self \<noteq> None"
  shows "tokenize self text =
           (if tokenizer_stdin_open self
            then Inr ([], self\<lparr>tokenizer_stdin :=
                                 tokenizer_stdin self @ [text @ [CHR 0x0A, CHR 0x0A]],
                               tokenizer_stdout :=
                                 snd (readline (snd (read_segment (tokenizer_stdout self))))\<rparr>)
            else Inl IOError)"
proof (cases "tokenizer_stdin_open self")
  case False
  with assms(1) show ?thesis by (simp add: tokenize_def)
next
  case True
  obtain seg out1 where rs: "read_segment (tokenizer_stdout self) = (seg, out1)"
    by (cases "read_segment (tokenizer_stdout self)")
  obtain l out2 where rl: "readline out1 = (l, out2)" by (cases "readline out1")
  from read_segment_in [OF rs] assms(2) have "\<forall>c\<in>set seg. is_space_bytes c" by auto
  then have blank: "rstrip_bytes seg = []" by (rule rstrip_bytes_blank)
  show ?thesis
    using assms(1,3) rs rl blank True
    by (auto simp: tokenize_def Let_def segment_empty split_str_def)
qed

theorem tokenize_closed_stream_witness:
  "strip ''hello world'' \<noteq> []
   \<and> bpe \<lparr>use_subword = True, bpe = Some (BPE_init [''a b''] ''@@'' None), lang = ''en'',
          tokenizer_stdin_open = True, tokenizer_stdin = [],
          tokenizer_stdout = [[CHR 0x0A], [CHR 0x20, CHR 0x0A]]\<rparr> \<noteq> None
   \<and> tokenize \<lparr>use_subword = True, bpe = Some (BPE_init [''a b''] ''@@'' None), lang = ''en'',
          tokenizer_stdin_open = True, tokenizer_stdin = [],
          tokenizer_stdout = [[CHR 0x0A], [CHR 0x20, CHR 0x0A]]\<rparr> ''hello world''
       = Inr ([], \<lparr>use_subword = True, bpe = Some (BPE_init [''a b''] ''@@'' None), lang = ''en'',
          tokenizer_stdin_open = True,
          tokenizer_stdin = [''hello world'' @ [CHR 0x0A, CHR 0x0A]], tokenizer_stdout = []\<rparr>)
   \<and> tokenize \<lparr>use_subword = False, bpe = None, lang = ''en'',
          tokenizer_stdin_open = False, tokenizer_stdin = [], tokenizer_stdout = []\<rparr>
          ''hello world''
       = Inl IOError"
  using tokenize_closed_stream
    [of "''hello world''"
        "\<lparr>use_subword = True, bpe = Some (BPE_init [''a b''] ''@@'' None), lang = ''en'',
          tokenizer_stdin_open = True, tokenizer_stdin = [],
          tokenizer_stdout = [[CHR 0x0A], [CHR 0x20, CHR 0x0A]]\<rparr>"]
    tokenize_closed_stream
    [of "''hello world''"
        "\<lparr>use_subword = False, bpe = None, lang = ''en'',
          tokenizer_stdin_open = False, tokenizer_stdin = [], tokenizer_stdout = []\<rparr>"]
  by (simp add: strip_def is_space_def is_space_bytes_def)

section \<open>The walk of the remapper, position by position\<close>

text \<open>
  The cursor moves over \<open>tokenized\<close> in the same way whatever the spans are: for each
  character of \<open>detokenized\<close> it stops at the first position, from the cursor on, that holds
  the character. \<open>matched\<close> lists these positions as far as the walk gets; \<open>aligned\<close> says
  that every character of \<open>detokenized\<close> finds its position, that is, that the cursor never
  runs past the end of \<open>tokenized\<close>; \<open>end_idx\<close> is the cursor when the loop is left.
\<close>

fun matched :: "string \<Rightarrow> nat \<Rightarrow> string \<Rightarrow> nat list" where
  "matched t i [] = []"
| "matched t i (c # d) =
     (case index_from t c i of None \<Rightarrow> [] | Some j \<Rightarrow> j # matched t (Suc j) d)"

fun aligned :: "string \<Rightarrow> nat \<Rightarrow> string \<Rightarrow> bool" where
  "aligned t i [] = True"
| "aligned t i (c # d) =
     (case index_from t c i of None \<Rightarrow> False | Some j \<Rightarrow> aligned t (Suc j) d)"

fun end_idx :: "string \<Rightarrow> nat \<Rightarrow> string \<Rightarrow> nat" where
  "end_idx t i [] = i"
| "end_idx t i (c # d) =
     (case index_from t c i of None \<Rightarrow> i | Some j \<Rightarrow> end_idx t (Suc j) d)"

text \<open>
  The positions that the remapper tests against the spans, in the order of the tests, each
  with the value of \<^verbatim>\<open>tokenized_idx - current_offset\<close> it has there: the number \<open>k\<close> of
  characters matched before. When a character finds no match, the cursor is tested at every
  position up to the length of \<open>tokenized\<close>, and then the read raises IndexError.
\<close>

fun visits :: "string \<Rightarrow> nat \<Rightarrow> nat \<Rightarrow> string \<Rightarrow> (nat \<times> nat) list" where
  "visits t i k [] = []"
| "visits t i k (c # d) =
     (case index_from t c i of
        None \<Rightarrow> map (\<lambda>p. (p, k)) [i..<Suc (length t)]
      | Some j \<Rightarrow> map (\<lambda>p. (p, k)) [i..<Suc j] @ visits t (Suc j) (Suc k) d)"

text \<open>
  The test of one position, and of a sequence of positions, on the two variables it
  changes: the pending start and the output.
\<close>

type_synonym pending = "nat option \<times> (nat \<times> nat) list"

definition acheck ::
  "(nat \<rightharpoonup> nat) \<Rightarrow> (nat \<rightharpoonup> nat) \<Rightarrow> nat \<times> nat \<Rightarrow> pending \<Rightarrow> py_error + pending" where
  "acheck starts ends pv s =
     (if has_key starts (fst pv) then Inr (Some (snd pv), snd s)
      else if has_key ends (fst pv)
      then (case fst s of
              None \<Rightarrow> Inl AssertionError
            | Some a \<Rightarrow> Inr (None, snd s @ [(a, snd pv)]))
      else Inr s)"

fun awalk ::
  "(nat \<rightharpoonup> nat) \<Rightarrow> (nat \<rightharpoonup> nat) \<Rightarrow> (nat \<times> nat) list \<Rightarrow> pending \<Rightarrow> py_error + pending" where
  "awalk starts ends [] s = Inr s"
| "awalk starts ends (pv # rest) s =
     (case acheck starts ends pv s of
        Inl e \<Rightarrow> Inl e
      | Inr s' \<Rightarrow> awalk starts ends rest s')"

abbreviation mk :: "nat \<Rightarrow> nat \<Rightarrow> nat option \<Rightarrow> (nat \<times> nat) list \<Rightarrow> remap_state" where
  "mk i off ts out \<equiv>
     \<lparr>tokenized_idx = i, current_offset = off, true_start = ts, remapped_indices = out\<rparr>"

lemma awalk_append:
  "awalk starts ends (xs @ ys) s =
     (case awalk starts ends xs s of Inl e \<Rightarrow> Inl e | Inr s' \<Rightarrow> awalk starts ends ys s')"
  by (induction xs arbitrary: s) (auto split: sum.splits)

lemma awalk_error: "awalk starts ends xs s = Inl e \<Longrightarrow> e = AssertionError"
  by (induction xs arbitrary: s)
     (auto simp: acheck_def split: sum.splits if_splits option.splits)

lemma check_position_acheck:
  "check_position starts ends (mk i off ts out) =
     (case acheck starts ends (i, i - off) (ts, out) of
        Inl e \<Rightarrow> Inl e
      | Inr s \<Rightarrow> Inr (mk i off (fst s) (snd s)))"
  by (simp add: check_position_def acheck_def split: option.splits)

lemma index_from_beyond: "length t \<le> i \<Longrightarrow> index_from t c i = None"
  by (simp add: index_from_def)

lemma drop_nth_Cons: "i < length t \<Longrightarrow> drop i t = t ! i # drop (Suc i) t"
  by (rule Cons_nth_drop_Suc [symmetric])

lemma index_from_here: "i < length t \<Longrightarrow> t ! i = c \<Longrightarrow> index_from t c i = Some i"
  by (simp add: index_from_def drop_nth_Cons)

lemma upt_Suc_Cons: "i \<le> n \<Longrightarrow> [i..<Suc n] = i # [Suc i..<Suc n]"
  by (simp add: upt_conv_Cons)

declare upt_Suc [simp del]

lemma index_from_next:
  "i < length t \<Longrightarrow> t ! i \<noteq> c \<Longrightarrow> index_from t c i = index_from t c (Suc i)"
proof -
  assume a: "i < length t" "t ! i \<noteq> c"
  show ?thesis using a
    by (cases "index_of c (drop (Suc i) t)") (simp_all add: index_from_def drop_nth_Cons)
qed

lemma skip_loop_walk:
  "skip_loop t c starts ends (mk i off ts out) =
     (case index_from t c i of
        Some j \<Rightarrow>
          (case awalk starts ends (map (\<lambda>p. (p, i - off)) [Suc i..<Suc j]) (ts, out) of
             Inl e \<Rightarrow> Inl e
           | Inr s \<Rightarrow> Inr (mk j (off + (j - i)) (fst s) (snd s)))
      | None \<Rightarrow>
          (case awalk starts ends (map (\<lambda>p. (p, i - off)) [Suc i..<Suc (length t)]) (ts, out) of
             Inl e \<Rightarrow> Inl e
           | Inr s \<Rightarrow> Inl IndexError))"
proof (induction "length t - i" arbitrary: i off ts out)
  case 0
  then have le: "length t \<le> i" by simp
  then show ?case
    by (subst skip_loop.simps) (simp add: index_from_beyond)
next
  case (Suc n)
  then have lt: "i < length t" by simp
  show ?case
  proof (cases "t ! i = c")
    case True
    with lt show ?thesis
      by (subst skip_loop.simps) (simp add: index_from_here)
  next
    case False
    have n: "n = length t - Suc i" using Suc(2) by simp
    have upt1: "[Suc i..<Suc (length t)] = Suc i # [Suc (Suc i)..<Suc (length t)]"
      using lt by (simp add: upt_Suc_Cons)
    have unfold: "skip_loop t c starts ends (mk i off ts out) =
        (case acheck starts ends (Suc i, i - off) (ts, out) of
           Inl e \<Rightarrow> Inl e
         | Inr s \<Rightarrow> skip_loop t c starts ends (mk (Suc i) (Suc off) (fst s) (snd s)))"
      using lt False
      by (subst skip_loop.simps)
         (simp add: check_position_acheck Let_def split: sum.splits)
    show ?thesis
    proof (cases "acheck starts ends (Suc i, i - off) (ts, out)")
      case (Inl e)
      show ?thesis
      proof (cases "index_from t c (Suc i)")
        case None
        then show ?thesis
          using Inl unfold lt False by (simp add: index_from_next upt1)
      next
        case (Some j)
        then have "Suc i \<le> j" by (rule index_from_Some(1))
        then have "[Suc i..<Suc j] = Suc i # [Suc (Suc i)..<Suc j]"
          by (rule upt_Suc_Cons)
        then show ?thesis
          using Inl unfold lt False Some by (simp add: index_from_next)
      qed
    next
      case (Inr s)
      note IH = Suc(1) [OF n, of "Suc off" "fst s" "snd s"]
      show ?thesis
      proof (cases "index_from t c (Suc i)")
        case None
        then show ?thesis
          using Inr unfold lt False IH by (simp add: index_from_next upt1)
      next
        case (Some j)
        then have le: "Suc i \<le> j" by (rule index_from_Some(1))
        then have upt2: "[Suc i..<Suc j] = Suc i # [Suc (Suc i)..<Suc j]"
          by (rule upt_Suc_Cons)
        show ?thesis
          using Inr unfold lt False Some IH le
          by (simp add: index_from_next upt2 split: sum.splits)
      qed
    qed
  qed
qed

lemma for_loop_walk:
  "off \<le> i \<Longrightarrow> i \<le> length t \<Longrightarrow>
   for_loop t starts ends d (mk i off ts out) =
     (case awalk starts ends (visits t i (i - off) d) (ts, out) of
        Inl e \<Rightarrow> Inl e
      | Inr s \<Rightarrow>
          if aligned t i d
          then Inr (mk (end_idx t i d) (end_idx t i d - (i - off) - length d) (fst s) (snd s))
          else Inl IndexError)"
proof (induction d arbitrary: i off ts out)
  case Nil
  then show ?case by simp
next
  case (Cons c d)
  have upt_t: "[i..<Suc (length t)] = i # [Suc i..<Suc (length t)]"
    using Cons.prems(2) by (rule upt_Suc_Cons)
  show ?case
  proof (cases "index_from t c i")
    case None
    show ?thesis
      using None
      by (simp add: check_position_acheck skip_loop_walk upt_t split: sum.splits)
  next
    case (Some j)
    then have le: "i \<le> j" and lt: "j < length t" by (rule index_from_Some)+
    have upt: "[i..<Suc j] = i # [Suc i..<Suc j]" using le by (rule upt_Suc_Cons)
    have k: "Suc j - (off + (j - i)) = Suc (i - off)" using le Cons.prems by simp
    have offle: "off + (j - i) \<le> Suc j" using le Cons.prems by simp
    have jle: "Suc j \<le> length t" using lt by simp
    have sub: "x - Suc (i - off) - length d = x - (i - off) - Suc (length d)" for x
      by simp
    show ?thesis
    proof (cases "acheck starts ends (i, i - off) (ts, out)")
      case (Inl e)
      then show ?thesis
        using Some by (simp add: check_position_acheck upt)
    next
      case (Inr s1)
      show ?thesis
      proof (cases "awalk starts ends (map (\<lambda>p. (p, i - off)) [Suc i..<Suc j]) s1")
        case (Inl e)
        then show ?thesis
          using Inr Some
          by (simp add: check_position_acheck skip_loop_walk upt awalk_append)
      next
        case s2: (Inr s2)
        note IH = Cons.IH [OF offle jle, of "fst s2" "snd s2"]
        show ?thesis
          using Inr Some s2 IH
          by (simp add: check_position_acheck skip_loop_walk upt awalk_append k sub
                   split: sum.splits)
      qed
    qed
  qed
qed

text \<open>
  The number of matched positions below \<open>p\<close>: the offset into \<open>detokenized\<close> that the remapper
  gives to the position \<open>p\<close> of \<open>tokenized\<close>. \<open>stop\<close> is the first position that is not tested.
\<close>

definition count_below :: "nat \<Rightarrow> nat list \<Rightarrow> nat" where
  "count_below p ps = length (filter (\<lambda>q. q < p) ps)"

fun stop :: "string \<Rightarrow> nat \<Rightarrow> string \<Rightarrow> nat" where
  "stop t i [] = i"
| "stop t i (c # d) =
     (case index_from t c i of None \<Rightarrow> Suc (length t) | Some j \<Rightarrow> stop t (Suc j) d)"

text \<open>
  Spans listed in increasing order, each non-empty and ending strictly before the next
  starts; and spans whose boundaries lie on kept characters: the start is a matched
  position and the end is one past a matched position.
\<close>

fun separated_from :: "nat \<Rightarrow> (nat \<times> nat) list \<Rightarrow> bool" where
  "separated_from a [] = True"
| "separated_from a ((s, e) # rest) = (a \<le> s \<and> s < e \<and> separated_from (Suc e) rest)"

definition separated :: "(nat \<times> nat) list \<Rightarrow> bool" where
  "separated spans = separated_from 0 spans"

definition on_kept :: "nat list \<Rightarrow> (nat \<times> nat) list \<Rightarrow> bool" where
  "on_kept ps spans = list_all (\<lambda>(s, e). s \<in> set ps \<and> e - 1 \<in> set ps) spans"

text \<open>
  The remapped span, and the re-expansion in the words of the specification (the round
  trip of its testable properties, "re-expanding spans back onto tokenized by inverse
  offset"): a remapped offset goes back to \<open>tokenized\<close> by adding the offset it lost, the
  number of characters of \<open>tokenized\<close> that are absent from \<open>detokenized\<close> before the kept
  character it refers to. The end of a span is exclusive, so it refers to the last
  character of the span.
\<close>

definition contract :: "nat list \<Rightarrow> nat \<times> nat \<Rightarrow> nat \<times> nat" where
  "contract ps span = (count_below (fst span) ps, count_below (snd span) ps)"

definition offset_at :: "nat list \<Rightarrow> nat \<Rightarrow> nat" where
  "offset_at ps k = ps ! k - k"

definition reexpand_spec :: "nat list \<Rightarrow> nat \<times> nat \<Rightarrow> (nat \<times> nat) option" where
  "reexpand_spec ps span =
     (if fst span < length ps \<and> 0 < snd span \<and> snd span \<le> length ps
      then Some (fst span + offset_at ps (fst span), snd span + offset_at ps (snd span - 1))
      else None)"

lemma matched_ge: "q \<in> set (matched t i d) \<Longrightarrow> i \<le> q"
proof (induction d arbitrary: i)
  case Nil
  then show ?case by simp
next
  case (Cons c d)
  show ?case
  proof (cases "index_from t c i")
    case None
    with Cons.prems show ?thesis by simp
  next
    case (Some j)
    then have "i \<le> j" by (rule index_from_Some(1))
    with Cons.prems Some Cons.IH [of "Suc j"] show ?thesis by auto
  qed
qed

lemma stop_ge: "i \<le> length t \<Longrightarrow> i \<le> stop t i d"
proof (induction d arbitrary: i)
  case Nil
  show ?case by simp
next
  case (Cons c d)
  show ?case
  proof (cases "index_from t c i")
    case None
    with Cons.prems show ?thesis by simp
  next
    case (Some j)
    then have "i \<le> j" "j < length t" by (rule index_from_Some)+
    with Some Cons.IH [of "Suc j"] show ?thesis by simp
  qed
qed

lemma matched_gt: "q \<in> set (matched t (Suc j) d) \<Longrightarrow> j < q"
  using matched_ge [of q t "Suc j" d] by simp

lemma matched_lt_stop: "q \<in> set (matched t i d) \<Longrightarrow> q < stop t i d"
proof (induction d arbitrary: i)
  case Nil
  then show ?case by simp
next
  case (Cons c d)
  show ?case
  proof (cases "index_from t c i")
    case None
    with Cons.prems show ?thesis by simp
  next
    case (Some j)
    then have "j < length t" by (rule index_from_Some(2))
    then have "Suc j \<le> stop t (Suc j) d" by (intro stop_ge) simp
    with Cons.prems Some Cons.IH [of "Suc j"] show ?thesis by auto
  qed
qed

lemma matched_sorted: "sorted_wrt (<) (matched t i d)"
proof (induction d arbitrary: i)
  case Nil
  show ?case by simp
next
  case (Cons c d)
  show ?case
  proof (cases "index_from t c i")
    case None
    then show ?thesis by simp
  next
    case (Some j)
    have "\<forall>q\<in>set (matched t (Suc j) d). j < q"
      by (auto dest: matched_gt)
    with Some Cons.IH [of "Suc j"] show ?thesis by simp
  qed
qed

lemma count_below_none: "\<forall>q\<in>set ps. p \<le> q \<Longrightarrow> count_below p ps = 0"
  by (induction ps) (auto simp: count_below_def)

lemma count_below_Cons:
  "count_below p (q # ps) = (if q < p then Suc (count_below p ps) else count_below p ps)"
  by (simp add: count_below_def)

lemma visits_map:
  "i \<le> length t \<Longrightarrow>
   visits t i k d = map (\<lambda>p. (p, k + count_below p (matched t i d))) [i..<stop t i d]"
proof (induction d arbitrary: i k)
  case Nil
  show ?case by simp
next
  case (Cons c d)
  show ?case
  proof (cases "index_from t c i")
    case None
    then show ?thesis by (simp add: count_below_def)
  next
    case (Some j)
    then have le: "i \<le> j" and lt: "j < length t" by (rule index_from_Some)+
    have jle: "Suc j \<le> length t" using lt by simp
    have ge: "Suc j \<le> stop t (Suc j) d" using jle by (rule stop_ge)
    have split: "[i..<stop t (Suc j) d] = [i..<Suc j] @ [Suc j..<stop t (Suc j) d]"
      using le ge upt_add_eq_append [of i "Suc j" "stop t (Suc j) d - Suc j"] by simp
    have low: "count_below p (j # matched t (Suc j) d) = 0" if "p \<le> j" for p
    proof (rule count_below_none)
      show "\<forall>q\<in>set (j # matched t (Suc j) d). p \<le> q"
        using that by (auto dest!: matched_gt)
    qed
    have high: "count_below p (j # matched t (Suc j) d) = Suc (count_below p (matched t (Suc j) d))"
      if "Suc j \<le> p" for p
      using that by (simp add: count_below_Cons)
    have "visits t i k (c # d) =
            map (\<lambda>p. (p, k)) [i..<Suc j] @ visits t (Suc j) (Suc k) d"
      using Some by simp
    also have "visits t (Suc j) (Suc k) d =
                 map (\<lambda>p. (p, Suc k + count_below p (matched t (Suc j) d)))
                   [Suc j..<stop t (Suc j) d]"
      by (rule Cons.IH [OF jle])
    also have "map (\<lambda>p. (p, k)) [i..<Suc j] @ \<dots> =
                 map (\<lambda>p. (p, k + count_below p (matched t i (c # d)))) [i..<stop t i (c # d)]"
      using Some by (simp add: split low high)
    finally show ?thesis .
  qed
qed

lemma awalk_quiet:
  "\<forall>pv\<in>set xs. \<not> has_key starts (fst pv) \<and> \<not> has_key ends (fst pv) \<Longrightarrow>
     awalk starts ends xs s = Inr s"
  by (induction xs arbitrary: s) (auto simp: acheck_def)

lemma awalk_quiet_range:
  "\<forall>p. a \<le> p \<and> p < b \<longrightarrow> \<not> has_key starts p \<and> \<not> has_key ends p \<Longrightarrow>
     awalk starts ends (map (\<lambda>p. (p, M p)) [a..<b]) s = Inr s"
  by (rule awalk_quiet) auto

lemma separated_from_bounds:
  "separated_from a spans \<Longrightarrow> (s, e) \<in> set spans \<Longrightarrow> a \<le> s \<and> s < e"
proof (induction spans arbitrary: a)
  case Nil
  then show ?case by simp
next
  case (Cons x spans)
  obtain s' e' where x: "x = (s', e')" by (cases x)
  from Cons.prems(1) x have h: "a \<le> s'" "s' < e'" "separated_from (Suc e') spans" by auto
  show ?case
  proof (cases "(s, e) = x")
    case True
    with x h show ?thesis by simp
  next
    case False
    with Cons.prems(2) have "(s, e) \<in> set spans" by simp
    from Cons.IH [OF h(3) this] h show ?thesis by simp
  qed
qed

lemma upt_split_at: "a \<le> s \<Longrightarrow> s < b \<Longrightarrow> [a..<b] = [a..<s] @ s # [Suc s..<b]"
  using upt_add_eq_append [of a s "b - s"] by (simp add: upt_conv_Cons)

lemma aligned_end_ge: "aligned t i d \<Longrightarrow> i + length d \<le> end_idx t i d"
proof (induction d arbitrary: i)
  case Nil
  show ?case by simp
next
  case (Cons c d)
  then obtain j where j: "index_from t c i = Some j" "aligned t (Suc j) d"
    by (auto split: option.splits)
  from index_from_Some(1) [OF j(1)] Cons.IH [OF j(2)] j(1) show ?case by simp
qed

lemma aligned_length: "aligned t i d \<Longrightarrow> length (matched t i d) = length d"
  by (induction d arbitrary: i) (auto split: option.splits)

abbreviation swap_span :: "nat \<times> nat \<Rightarrow> nat \<times> nat" where
  "swap_span \<equiv> (\<lambda>(start, end). (end, start))"

lemma remap_walk:
  "remap_constraint_indices t d spans =
     (case awalk (dict_of spans) (dict_of (map swap_span spans)) (visits t 0 0 d) (None, []) of
        Inl e \<Rightarrow> Inl e
      | Inr s \<Rightarrow>
          if aligned t 0 d
          then Inr (case fst s of Some a \<Rightarrow> snd s @ [(a, length d)] | None \<Rightarrow> snd s)
          else Inl IndexError)"
proof -
  have "end_idx t 0 d - (end_idx t 0 d - length d) = length d" if "aligned t 0 d"
    using aligned_end_ge [OF that] by simp
  then show ?thesis
    using for_loop_walk [of 0 0 t "dict_of spans" "dict_of (map swap_span spans)" d None "[]"]
    by (auto simp: remap_constraint_indices_def Let_def split: sum.splits option.splits)
qed

lemma ends_key: "has_key (dict_of (map swap_span spans)) p = (p \<in> snd ` set spans)"
proof -
  have "fst ` set (map swap_span spans) = snd ` set spans" by force
  then show ?thesis by (simp only: has_key_dict_of)
qed

lemma count_below_all: "\<forall>q\<in>set ps. q < p \<Longrightarrow> count_below p ps = length ps"
  by (induction ps) (auto simp: count_below_def)

lemma count_below_nth:
  "sorted_wrt (<) ps \<Longrightarrow> k < length ps \<Longrightarrow>
     count_below (ps ! k) ps = k \<and> count_below (Suc (ps ! k)) ps = Suc k"
proof (induction ps arbitrary: k)
  case Nil
  then show ?case by simp
next
  case (Cons x xs)
  then have gt: "\<forall>y\<in>set xs. x < y" and sorted: "sorted_wrt (<) xs" by auto
  show ?case
  proof (cases k)
    case 0
    have "count_below x xs = 0" using gt by (intro count_below_none) auto
    moreover have "count_below (Suc x) xs = 0" using gt by (intro count_below_none) auto
    ultimately show ?thesis using 0 by (simp add: count_below_Cons)
  next
    case (Suc k')
    then have k': "k' < length xs" using Cons.prems(2) by simp
    then have "x < xs ! k'" using gt by simp
    with Cons.IH [OF sorted k'] Suc show ?thesis by (simp add: count_below_Cons)
  qed
qed

lemma sorted_nth_ge: "sorted_wrt (<) ps \<Longrightarrow> k < length ps \<Longrightarrow> k \<le> ps ! k"
proof (induction k)
  case 0
  show ?case by simp
next
  case (Suc k)
  then have "ps ! k < ps ! Suc k" by (simp add: sorted_wrt_nth_less)
  with Suc show ?case by simp
qed

lemma reexpand_spec_contract:
  assumes "sorted_wrt (<) ps" and "s \<in> set ps" and "e - 1 \<in> set ps" and "s < e"
  shows "reexpand_spec ps (contract ps (s, e)) = Some (s, e)"
proof -
  from assms(2) obtain k where k: "k < length ps" "ps ! k = s" by (auto simp: in_set_conv_nth)
  from assms(3) obtain l where l: "l < length ps" "ps ! l = e - 1" by (auto simp: in_set_conv_nth)
  have e: "e = Suc (ps ! l)" using l(2) assms(4) by simp
  have cs: "count_below s ps = k" using count_below_nth [OF assms(1) k(1)] k(2) by simp
  have ce: "count_below e ps = Suc l" using count_below_nth [OF assms(1) l(1)] e by simp
  have ge: "k \<le> ps ! k" "l \<le> ps ! l" using sorted_nth_ge [OF assms(1)] k(1) l(1) by auto
  have "contract ps (s, e) = (k, Suc l)" by (simp add: contract_def cs ce)
  moreover have "reexpand_spec ps (k, Suc l) = Some (ps ! k, Suc (ps ! l))"
    using k(1) l(1) ge by (simp add: reexpand_spec_def offset_at_def)
  ultimately show ?thesis by (simp only: k(2) e [symmetric])
qed

lemma subseq_remove_all: "subseq (remove_all old xs) xs"
proof (induction old xs rule: remove_all.induct)
  case (1 old)
  show ?case by simp
next
  case (2 old c cs)
  show ?case
  proof (cases "old \<noteq> [] \<and> prefix old (c # cs)")
    case True
    have "subseq (drop (length old) (c # cs)) (c # cs)"
      by (rule suffix_imp_subseq) (rule suffix_drop)
    with "2.IH"(1) [OF True] have "subseq (remove_all old (drop (length old) (c # cs))) (c # cs)"
      by (rule subseq_order.trans)
    moreover have "remove_all old (c # cs) = remove_all old (drop (length old) (c # cs))"
      using True by simp
    ultimately show ?thesis by simp
  next
    case False
    then have "remove_all old (c # cs) = c # remove_all old cs"
      by auto
    with "2.IH"(2) [OF False] show ?thesis by simp
  qed
qed

lemma subseq_first:
  "subseq (c # d) xs \<Longrightarrow> \<exists>k. index_of c xs = Some k \<and> subseq d (drop (Suc k) xs)"
proof (induction xs)
  case Nil
  then show ?case by simp
next
  case (Cons x xs)
  show ?case
  proof (cases "x = c")
    case True
    with Cons.prems show ?thesis by simp
  next
    case False
    with Cons.prems have "subseq (c # d) xs" by (simp add: subseq_Cons2_neq)
    from Cons.IH [OF this] False show ?thesis by auto
  qed
qed

lemma subseq_aligned: "subseq d (drop i t) \<Longrightarrow> aligned t i d"
proof (induction d arbitrary: i)
  case Nil
  show ?case by simp
next
  case (Cons c d)
  from subseq_first [OF Cons.prems] obtain k
    where k: "index_of c (drop i t) = Some k" "subseq d (drop (Suc k) (drop i t))" by blast
  have "drop (Suc k) (drop i t) = drop (Suc (i + k)) t" by (simp add: add.commute)
  with k(2) have "aligned t (Suc (i + k)) d" by (intro Cons.IH) simp
  with k(1) show ?case by (simp add: index_from_def)
qed

lemma aligned_remove_all: "aligned t 0 (remove_all old t)"
  using subseq_aligned [of "remove_all old t" 0 t] subseq_remove_all [of old t] by simp

text \<open>
  Non-overlapping spans, listed in increasing order: each is non-empty and ends at or
  before the start of the next.
\<close>

fun chained_from :: "nat \<Rightarrow> (nat \<times> nat) list \<Rightarrow> bool" where
  "chained_from a [] = True"
| "chained_from a ((s, e) # rest) = (a \<le> s \<and> s < e \<and> chained_from e rest)"

definition non_overlapping :: "(nat \<times> nat) list \<Rightarrow> bool" where
  "non_overlapping spans = chained_from 0 spans"

text \<open>The pending start and the output after the tests of the positions below \<open>b\<close>.\<close>

fun spans_result ::
  "(nat \<rightharpoonup> nat) \<Rightarrow> (nat \<Rightarrow> nat) \<Rightarrow> nat \<Rightarrow> (nat \<times> nat) list \<Rightarrow> (nat \<times> nat) list \<Rightarrow> pending" where
  "spans_result starts M b [] out = (None, out)"
| "spans_result starts M b ((s, e) # rest) out =
     (if b \<le> s then (None, out)
      else if b \<le> e then (Some (M s), out)
      else if has_key starts e then spans_result starts M b rest out
      else spans_result starts M b rest (out @ [(M s, M e)]))"

text \<open>
  With \<open>b\<close> the first position that the cursor does not reach: a span is returned when
  the cursor reaches its start, unless its end is the start of a span and the cursor
  reaches it.
\<close>

definition returned :: "nat \<Rightarrow> (nat \<times> nat) list \<Rightarrow> nat \<times> nat \<Rightarrow> bool" where
  "returned b spans span =
     (fst span < b \<and> \<not> (snd span < b \<and> snd span \<in> fst ` set spans))"

lemma chained_from_bounds:
  "chained_from a spans \<Longrightarrow> (s, e) \<in> set spans \<Longrightarrow> a \<le> s \<and> s < e"
proof (induction spans arbitrary: a)
  case Nil
  then show ?case by simp
next
  case (Cons x spans)
  obtain s' e' where x: "x = (s', e')" by (cases x)
  from Cons.prems(1) x have h: "a \<le> s'" "s' < e'" "chained_from e' spans" by auto
  show ?case
  proof (cases "(s, e) = x")
    case True
    with x h show ?thesis by simp
  next
    case False
    with Cons.prems(2) have "(s, e) \<in> set spans" by simp
    from Cons.IH [OF h(3) this] h show ?thesis by simp
  qed
qed

lemma chained_from_head:
  assumes "chained_from a spans" and "a \<in> fst ` set spans"
  shows "spans \<noteq> [] \<and> fst (hd spans) = a"
proof (cases spans)
  case Nil
  with assms(2) show ?thesis by simp
next
  case (Cons x rest)
  obtain s e where x: "x = (s, e)" by (cases x)
  from assms(1) Cons x have h: "a \<le> s" "s < e" "chained_from e rest" by auto
  have "a \<notin> fst ` set rest"
  proof
    assume "a \<in> fst ` set rest"
    then obtain e' where "(a, e') \<in> set rest" by force
    from chained_from_bounds [OF h(3) this] h show False by simp
  qed
  with assms(2) Cons x show ?thesis by auto
qed

lemma chained_from_Suc:
  assumes "chained_from a spans" and "a \<notin> fst ` set spans"
  shows "chained_from (Suc a) spans"
proof (cases spans)
  case Nil
  then show ?thesis by simp
next
  case (Cons x rest)
  obtain s e where x: "x = (s, e)" by (cases x)
  from assms Cons x have "a \<le> s" "s < e" "chained_from e rest" "a \<noteq> s" by auto
  with Cons x show ?thesis by simp
qed

lemma spans_result_skip:
  "spans = [] \<or> b \<le> fst (hd spans) \<Longrightarrow> spans_result starts M b spans out = (None, out)"
  by (cases spans) auto

lemma upt_split_le: "a \<le> s \<Longrightarrow> s \<le> b \<Longrightarrow> [a..<b] = [a..<s] @ [s..<b]"
  using upt_add_eq_append [of a s "b - s"] by simp

lemma awalk_chained:
  assumes "chained_from a spans"
    and "\<forall>p. a \<le> p \<longrightarrow> has_key starts p = (p \<in> fst ` set spans)"
    and "\<forall>p. a \<le> p \<longrightarrow> \<not> has_key starts p \<longrightarrow> has_key ends p = (p \<in> snd ` set spans)"
  shows "awalk starts ends (map (\<lambda>p. (p, M p)) [a..<b]) (ts0, out)
           = Inr (if spans = [] \<or> b \<le> fst (hd spans) then (ts0, out)
                  else spans_result starts M b spans out)"
  using assms
proof (induction spans arbitrary: a ts0 out)
  case Nil
  have "awalk starts ends (map (\<lambda>p. (p, M p)) [a..<b]) (ts0, out) = Inr (ts0, out)"
    using Nil.prems by (intro awalk_quiet_range) simp
  then show ?case by simp
next
  case (Cons x rest)
  obtain s e where x: "x = (s, e)" by (cases x)
  from Cons.prems(1) x have h: "a \<le> s" "s < e" "chained_from e rest" by auto
  have rest: "e \<le> s' \<and> s' < e'" if "(s', e') \<in> set rest" for s' e'
    using chained_from_bounds [OF h(3) that] .
  have rest_fst: "e \<le> p" if "p \<in> fst ` set rest" for p
    using that rest by force
  have rest_snd: "e < p" if "p \<in> snd ` set rest" for p
    using that rest by force
  have starts: "has_key starts p = (p = s \<or> p \<in> fst ` set rest)" if "a \<le> p" for p
    using Cons.prems(2) that x by auto
  have ends: "has_key ends p = (p = e \<or> p \<in> snd ` set rest)"
    if "a \<le> p" "\<not> has_key starts p" for p
    using Cons.prems(3) that x by auto
  have quiet1: "awalk starts ends (map (\<lambda>p. (p, M p)) [a..<c]) st = Inr st" if "c \<le> s" for c st
  proof (rule awalk_quiet_range, intro allI impI)
    fix p assume p: "a \<le> p \<and> p < c"
    then have lt: "p < s" "p < e" using that h by auto
    then have ns: "\<not> has_key starts p" using starts [of p] p rest_fst [of p] by auto
    moreover have "\<not> has_key ends p" using ends [of p] ns p lt rest_snd [of p] by auto
    ultimately show "\<not> has_key starts p \<and> \<not> has_key ends p" by simp
  qed
  have quiet2: "awalk starts ends (map (\<lambda>p. (p, M p)) [Suc s..<c]) st = Inr st" if "c \<le> e" for c st
  proof (rule awalk_quiet_range, intro allI impI)
    fix p assume p: "Suc s \<le> p \<and> p < c"
    then have lt: "a \<le> p" "p \<noteq> s" "p < e" using that h by auto
    then have ns: "\<not> has_key starts p" using starts [of p] rest_fst [of p] by auto
    moreover have "\<not> has_key ends p" using ends [of p] ns lt rest_snd [of p] by auto
    ultimately show "\<not> has_key starts p \<and> \<not> has_key ends p" by simp
  qed
  show ?case
  proof (cases "b \<le> s")
    case True
    then show ?thesis using quiet1 [of b] x by simp
  next
    case False
    then have sb: "s < b" by simp
    have at_s: "acheck starts ends (s, M s) (ts0, out) = Inr (Some (M s), out)"
      using starts [of s] h by (simp add: acheck_def)
    have upto_s: "awalk starts ends (map (\<lambda>p. (p, M p)) [a..<b]) (ts0, out)
                    = awalk starts ends (map (\<lambda>p. (p, M p)) [Suc s..<b]) (Some (M s), out)"
      using quiet1 [of s] at_s by (simp add: upt_split_at [OF h(1) sb] awalk_append)
    show ?thesis
    proof (cases "b \<le> e")
      case True
      then show ?thesis using quiet2 [of b] upto_s x False by simp
    next
      case False
      then have eb: "e < b" by simp
      have upto_e: "awalk starts ends (map (\<lambda>p. (p, M p)) [Suc s..<b]) (Some (M s), out)
                      = awalk starts ends (map (\<lambda>p. (p, M p)) [e..<b]) (Some (M s), out)"
        using quiet2 [of e] h(2) eb
        by (simp add: upt_split_le [of "Suc s" e b] awalk_append)
      show ?thesis
      proof (cases "has_key starts e")
        case True
        then have "e \<in> fst ` set rest" using starts [of e] h by auto
        from chained_from_head [OF h(3) this] have hd: "rest \<noteq> []" "fst (hd rest) = e" by auto
        have "awalk starts ends (map (\<lambda>p. (p, M p)) [e..<b]) (Some (M s), out)
                = Inr (if rest = [] \<or> b \<le> fst (hd rest) then (Some (M s), out)
                       else spans_result starts M b rest out)"
        proof (rule Cons.IH [OF h(3)])
          show "\<forall>p. e \<le> p \<longrightarrow> has_key starts p = (p \<in> fst ` set rest)"
            using starts h by auto
          show "\<forall>p. e \<le> p \<longrightarrow> \<not> has_key starts p \<longrightarrow> has_key ends p = (p \<in> snd ` set rest)"
          proof (intro allI impI)
            fix p assume p: "e \<le> p" "\<not> has_key starts p"
            then have "p \<noteq> e" using True by auto
            then show "has_key ends p = (p \<in> snd ` set rest)"
              using ends [of p] p h by auto
          qed
        qed
        then show ?thesis
          using upto_s upto_e hd eb sb True x by simp
      next
        case False
        then have nrest: "e \<notin> fst ` set rest" using starts [of e] h by auto
        have "has_key ends e" using ends [of e] False h by simp
        with False have at_e: "acheck starts ends (e, M e) (Some (M s), out)
                               = Inr (None, out @ [(M s, M e)])"
          by (simp add: acheck_def)
        have "awalk starts ends (map (\<lambda>p. (p, M p)) [Suc e..<b]) (None, out @ [(M s, M e)])
                = Inr (if rest = [] \<or> b \<le> fst (hd rest) then (None, out @ [(M s, M e)])
                       else spans_result starts M b rest (out @ [(M s, M e)]))"
        proof (rule Cons.IH [OF chained_from_Suc [OF h(3) nrest]])
          show "\<forall>p. Suc e \<le> p \<longrightarrow> has_key starts p = (p \<in> fst ` set rest)"
            using starts h by auto
          show "\<forall>p. Suc e \<le> p \<longrightarrow> \<not> has_key starts p \<longrightarrow> has_key ends p = (p \<in> snd ` set rest)"
            using ends h by auto
        qed
        also have "\<dots> = Inr (spans_result starts M b rest (out @ [(M s, M e)]))"
          by (auto simp: spans_result_skip)
        finally have after_e:
          "awalk starts ends (map (\<lambda>p. (p, M p)) [Suc e..<b]) (None, out @ [(M s, M e)])
             = Inr (spans_result starts M b rest (out @ [(M s, M e)]))" .
        have "[e..<b] = e # [Suc e..<b]" using eb by (simp add: upt_conv_Cons)
        then show ?thesis
          using upto_s upto_e at_e after_e eb sb False x by simp
      qed
    qed
  qed
qed

lemma filter_beyond:
  assumes "chained_from e rest" and "b \<le> e"
  shows "filter (\<lambda>(s, e). s < b \<and> \<not> (e < b \<and> has_key starts e)) rest = []"
proof -
  have "\<not> s' < b" if "(s', e') \<in> set rest" for s' e'
    using chained_from_bounds [OF assms(1) that] assms(2) by simp
  then show ?thesis by (auto simp: filter_empty_conv)
qed

lemma flush_spans_result:
  assumes "chained_from a spans" and "\<forall>p. b \<le> p \<longrightarrow> M p = v"
  shows "(case fst (spans_result starts M b spans out) of
            Some x \<Rightarrow> snd (spans_result starts M b spans out) @ [(x, v)]
          | None \<Rightarrow> snd (spans_result starts M b spans out))
           = out @ map (\<lambda>(s, e). (M s, M e))
                     (filter (\<lambda>(s, e). s < b \<and> \<not> (e < b \<and> has_key starts e)) spans)"
  using assms(1)
proof (induction spans arbitrary: a out)
  case Nil
  show ?case by simp
next
  case (Cons x rest)
  obtain s e where x: "x = (s, e)" by (cases x)
  from Cons.prems x have h: "s < e" "chained_from e rest" by auto
  show ?case
  proof (cases "b \<le> s")
    case True
    then have "b \<le> e" using h by simp
    from filter_beyond [OF h(2) this, of starts] True x show ?thesis by simp
  next
    case sb: False
    show ?thesis
    proof (cases "b \<le> e")
      case True
      have "spans_result starts M b (x # rest) out = (Some (M s), out)"
        using x sb True by simp
      moreover have "M e = v" using assms(2) True by simp
      ultimately show ?thesis
        using filter_beyond [OF h(2) True, of starts] True sb x by simp
    next
      case eb: False
      show ?thesis
      proof (cases "has_key starts e")
        case True
        have step: "spans_result starts M b (x # rest) out = spans_result starts M b rest out"
          using x sb eb True by simp
        show ?thesis
          unfolding step using Cons.IH [OF h(2), of out] x sb eb True by simp
      next
        case False
        have step: "spans_result starts M b (x # rest) out
                      = spans_result starts M b rest (out @ [(M s, M e)])"
          using x sb eb False by simp
        show ?thesis
          unfolding step using Cons.IH [OF h(2), of "out @ [(M s, M e)]"] x sb eb False by simp
      qed
    qed
  qed
qed

lemma walk_chained:
  assumes "set spans = set ordered" and "non_overlapping ordered"
  shows "awalk (dict_of spans) (dict_of (map swap_span spans)) (visits t 0 0 d) (None, [])
           = Inr (spans_result (dict_of spans) (\<lambda>p. count_below p (matched t 0 d))
                    (stop t 0 d) ordered [])"
proof -
  have "visits t 0 0 d = map (\<lambda>p. (p, count_below p (matched t 0 d))) [0..<stop t 0 d]"
    using visits_map [of 0 t 0 d] by simp
  moreover have "awalk (dict_of spans) (dict_of (map swap_span spans))
                   (map (\<lambda>p. (p, count_below p (matched t 0 d))) [0..<stop t 0 d]) (None, [])
                 = Inr (if ordered = [] \<or> stop t 0 d \<le> fst (hd ordered) then (None, [])
                        else spans_result (dict_of spans) (\<lambda>p. count_below p (matched t 0 d))
                               (stop t 0 d) ordered [])"
  proof (rule awalk_chained)
    show "chained_from 0 ordered" using assms(2) by (simp add: non_overlapping_def)
    show "\<forall>p. 0 \<le> p \<longrightarrow> has_key (dict_of spans) p = (p \<in> fst ` set ordered)"
      by (simp only: has_key_dict_of assms(1) simp_thms)
    show "\<forall>p. 0 \<le> p \<longrightarrow> \<not> has_key (dict_of spans) p \<longrightarrow>
            has_key (dict_of (map swap_span spans)) p = (p \<in> snd ` set ordered)"
      by (simp only: ends_key assms(1) simp_thms)
  qed
  ultimately show ?thesis by (auto simp: spans_result_skip)
qed

lemma remap_chained:
  assumes "aligned t 0 d" and "set spans = set ordered" and "non_overlapping ordered"
  shows "remap_constraint_indices t d spans
           = Inr (map (contract (matched t 0 d)) (filter (returned (stop t 0 d) ordered) ordered))"
proof -
  let ?ps = "matched t 0 d"
  let ?M = "\<lambda>p. count_below p ?ps"
  let ?b = "stop t 0 d"
  have Mb: "\<forall>p. ?b \<le> p \<longrightarrow> ?M p = length d"
  proof (intro allI impI)
    fix p assume "?b \<le> p"
    then have "\<forall>q\<in>set ?ps. q < p" using matched_lt_stop [of _ t 0 d] by fastforce
    then show "?M p = length d"
      using count_below_all [of ?ps p] aligned_length [OF assms(1)] by simp
  qed
  have "remap_constraint_indices t d spans =
          Inr (case fst (spans_result (dict_of spans) ?M ?b ordered []) of
                 Some x \<Rightarrow> snd (spans_result (dict_of spans) ?M ?b ordered []) @ [(x, length d)]
               | None \<Rightarrow> snd (spans_result (dict_of spans) ?M ?b ordered []))"
    using assms(1) by (simp add: remap_walk walk_chained [OF assms(2,3)])
  also have "\<dots> = Inr (map (\<lambda>(s, e). (?M s, ?M e))
                         (filter (\<lambda>(s, e). s < ?b \<and> \<not> (e < ?b \<and> has_key (dict_of spans) e))
                            ordered))"
    using flush_spans_result [of 0 ordered ?b ?M "length d" "dict_of spans" "[]"] assms(3) Mb
    by (simp add: non_overlapping_def)
  also have "(\<lambda>(s, e). s < ?b \<and> \<not> (e < ?b \<and> has_key (dict_of spans) e))
               = returned ?b ordered"
    by (auto simp: returned_def has_key_dict_of assms(2) fun_eq_iff)
  also have "(\<lambda>(s, e). (?M s, ?M e)) = contract ?ps"
    by (simp add: contract_def fun_eq_iff)
  finally show ?thesis .
qed

lemma remap_not_aligned_chained:
  assumes "\<not> aligned t 0 d" and "non_overlapping spans"
  shows "remap_constraint_indices t d spans = Inl IndexError"
  using assms(1) walk_chained [OF refl assms(2)] by (simp add: remap_walk)

lemma chained_from_mono: "chained_from a spans \<Longrightarrow> a' \<le> a \<Longrightarrow> chained_from a' spans"
  by (cases spans) auto

lemma separated_chained: "separated_from a spans \<Longrightarrow> chained_from a spans"
proof (induction spans arbitrary: a)
  case Nil
  show ?case by simp
next
  case (Cons x rest)
  obtain s e where x: "x = (s, e)" by (cases x)
  from Cons.prems x have h: "a \<le> s" "s < e" "separated_from (Suc e) rest" by auto
  from Cons.IH [OF h(3)] have "chained_from e rest" by (rule chained_from_mono) simp
  with h x show ?case by simp
qed

lemma separated_apart:
  "separated_from a spans \<Longrightarrow> (s, e) \<in> set spans \<Longrightarrow> e \<notin> fst ` set spans"
proof (induction spans arbitrary: a)
  case Nil
  then show ?case by simp
next
  case (Cons x rest)
  obtain s1 e1 where x: "x = (s1, e1)" by (cases x)
  from Cons.prems(1) x have h: "a \<le> s1" "s1 < e1" "separated_from (Suc e1) rest" by auto
  have later: "Suc e1 \<le> s' \<and> s' < e'" if "(s', e') \<in> set rest" for s' e'
    using separated_from_bounds [OF h(3) that] .
  show ?case
  proof (cases "(s, e) = x")
    case True
    then have "e = e1" using x by simp
    moreover have "e1 \<notin> fst ` set rest" using later by force
    ultimately show ?thesis using x h by auto
  next
    case False
    with Cons.prems(2) have in_rest: "(s, e) \<in> set rest" by simp
    from Cons.IH [OF h(3) in_rest] have "e \<notin> fst ` set rest" .
    moreover have "e \<noteq> s1" using later [OF in_rest] h by simp
    ultimately show ?thesis using x by auto
  qed
qed


section \<open>The cursor runs past the end of the tokenized string (C7)\<close>

text \<open>
  C7 states that whenever the cursor runs past the end of \<open>tokenized\<close> before it matches the
  current character, the call fails with the alignment overrun error (IndexError). The
  cursor of \<open>"abc"\<close> finds no \<open>x\<close>; with the nested spans \<open>[[0,3],[1,2]]\<close> the position 3,
  the length of \<open>tokenized\<close>, is tested as an end with no start pending, and the call fails
  with the failed assertion instead.
\<close>

theorem remap_overrun_counterexample:
  "\<not> aligned ''abc'' 0 ''abx''
   \<and> remap_constraint_indices ''abc'' ''abx'' [(0, 3), (1, 2)] = Inl AssertionError"
  by code_simp


text \<open>
  C7, amended: whenever the cursor runs past the end of \<open>tokenized\<close> before it matches the
  current character (some character of \<open>detokenized\<close> finds no match from the cursor on:
  \<open>\<not> aligned\<close>), the call fails and returns no spans: with IndexError, or with the failed
  assertion when an end with no pending start is tested before; for non-overlapping
  spans (in increasing order, each non-empty and ending at or before the start of the
  next) it fails with IndexError.
\<close>

theorem remap_overrun:
  assumes "\<not> aligned tokenized 0 detokenized"
  shows "(remap_constraint_indices tokenized detokenized spans = Inl IndexError
          \<or> remap_constraint_indices tokenized detokenized spans = Inl AssertionError)
       \<and> (non_overlapping spans \<longrightarrow>
            remap_constraint_indices tokenized detokenized spans = Inl IndexError)"
proof -
  have "remap_constraint_indices tokenized detokenized spans = Inl IndexError
          \<or> remap_constraint_indices tokenized detokenized spans = Inl AssertionError"
    using assms
      awalk_error [of "dict_of spans" "dict_of (map swap_span spans)"
                      "visits tokenized 0 0 detokenized" "(None, [])"]
    by (auto simp: remap_walk split: sum.splits)
  moreover have "remap_constraint_indices tokenized detokenized spans = Inl IndexError"
    if "non_overlapping spans"
    using assms walk_chained [OF refl that] by (simp add: remap_walk)
  ultimately show ?thesis by blast
qed


theorem remap_overrun_witness:
  "\<not> aligned ''abc'' 0 ''abx'' \<and> non_overlapping [(0, 2), (2, 3)]
   \<and> remap_constraint_indices ''abc'' ''abx'' [(0, 2), (2, 3)] = Inl IndexError"
proof -
  have a: "\<not> aligned ''abc'' 0 ''abx''" by code_simp
  have s: "non_overlapping [(0, 2), (2, 3)]" by code_simp
  from remap_overrun [OF a, of "[(0, 2), (2, 3)]"] a s show ?thesis by blast
qed


section \<open>The round trip of the remapper (C4)\<close>

text \<open>
  C4 states that, when \<open>detokenized\<close> is \<open>tokenized\<close> without its separators, re-expanding the
  remapped spans gives back the original spans. The spans \<open>[[0,4]]\<close> (the token \<open>fo@@\<close>) and
  \<open>[[0,2]]\<close> of \<open>"fo@@ o bar"\<close> are both remapped to \<open>[[0,2]]\<close>, which re-expands to \<open>[[0,2]]\<close>;
  the spans \<open>[[3,6]]\<close> and \<open>[[5,6]]\<close> are both remapped to \<open>[[2,3]]\<close>; and of the adjacent spans
  \<open>[[0,2],[2,6]]\<close> only one is returned. No re-expansion of the remapped spans can give back
  all of these.
\<close>

theorem remap_round_trip_counterexample:
  "remove_all ''@@ '' ''fo@@ o bar'' = ''foo bar''
   \<and> remap_constraint_indices ''fo@@ o bar'' ''foo bar'' [(0, 4)] = Inr [(0, 2)]
   \<and> remap_constraint_indices ''fo@@ o bar'' ''foo bar'' [(0, 2)] = Inr [(0, 2)]
   \<and> map (reexpand_spec (matched ''fo@@ o bar'' 0 ''foo bar'')) [(0, 2)] = [Some (0, 2)]
   \<and> remap_constraint_indices ''fo@@ o bar'' ''foo bar'' [(3, 6)] = Inr [(2, 3)]
   \<and> remap_constraint_indices ''fo@@ o bar'' ''foo bar'' [(5, 6)] = Inr [(2, 3)]
   \<and> remap_constraint_indices ''fo@@ o bar'' ''foo bar'' [(0, 2), (2, 6)] = Inr [(2, 3)]"
  by code_simp

text \<open>
  C4, amended: let \<open>detokenized\<close> be \<open>tokenized\<close> with every \<open>"@@ "\<close> removed, and let the spans
  be, in increasing order, non-empty, each ending strictly before the next starts, each
  starting at a kept character and ending one past a kept character. Then the remapper
  returns, in increasing order, each span with both offsets replaced by the number of kept
  characters before them, and re-expanding these by the inverse offset gives back exactly
  the original spans. In the statement \<open>spans\<close> is the list given to the remapper, in any
  order, and \<open>ordered\<close> lists the same spans in increasing order.
\<close>

theorem remap_round_trip:
  assumes "detokenized = remove_all ''@@ '' tokenized"
    and "set spans = set ordered"
    and "separated ordered"
    and "on_kept (matched tokenized 0 detokenized) ordered"
  shows "remap_constraint_indices tokenized detokenized spans
           = Inr (map (contract (matched tokenized 0 detokenized)) ordered)
       \<and> map (reexpand_spec (matched tokenized 0 detokenized))
           (map (contract (matched tokenized 0 detokenized)) ordered) = map Some ordered"
proof -
  let ?ps = "matched tokenized 0 detokenized"
  let ?b = "stop tokenized 0 detokenized"
  have al: "aligned tokenized 0 detokenized"
    unfolding assms(1) by (rule aligned_remove_all)
  have sep: "separated_from 0 ordered" using assms(3) by (simp add: separated_def)
  have no: "non_overlapping ordered"
    using separated_chained [OF sep] by (simp add: non_overlapping_def)
  have sorted: "sorted_wrt (<) ?ps" by (rule matched_sorted)
  have kept: "s \<in> set ?ps \<and> e - 1 \<in> set ?ps" if "(s, e) \<in> set ordered" for s e
    using assms(4) that by (auto simp: on_kept_def list_all_iff)
  have bounds: "s < e" if "(s, e) \<in> set ordered" for s e
    using separated_from_bounds [OF sep that] by simp
  have "returned ?b ordered span" if "span \<in> set ordered" for span
  proof -
    obtain s e where span: "span = (s, e)" by (cases span)
    from kept [of s e] that span have "s < ?b" by (auto intro: matched_lt_stop)
    moreover have "e \<notin> fst ` set ordered"
      using separated_apart [OF sep, of s e] that span by simp
    ultimately show ?thesis using span by (simp add: returned_def)
  qed
  then have "filter (returned ?b ordered) ordered = ordered" by (simp add: filter_id_conv)
  with remap_chained [OF al assms(2) no]
  have r: "remap_constraint_indices tokenized detokenized spans
             = Inr (map (contract ?ps) ordered)" by simp
  have "map (reexpand_spec ?ps) (map (contract ?ps) ordered) = map Some ordered"
  proof (simp, clarify)
    fix s e assume se: "(s, e) \<in> set ordered"
    show "reexpand_spec ?ps (contract ?ps (s, e)) = Some (s, e)"
      using reexpand_spec_contract [OF sorted] kept [OF se] bounds [OF se] by simp
  qed
  with r show ?thesis by simp
qed


theorem remap_round_trip_witness:
  "remove_all ''@@ '' ''fo@@ o b@@ ar'' = ''foo bar''
   \<and> set [(7, 13), (0, 6)] = set [(0::nat, 6::nat), (7, 13)]
   \<and> separated [(0, 6), (7, 13)]
   \<and> on_kept (matched ''fo@@ o b@@ ar'' 0 ''foo bar'') [(0, 6), (7, 13)]
   \<and> remap_constraint_indices ''fo@@ o b@@ ar'' ''foo bar'' [(7, 13), (0, 6)]
       = Inr [(0, 3), (4, 7)]
   \<and> map (reexpand_spec (matched ''fo@@ o b@@ ar'' 0 ''foo bar'')) [(0, 3), (4, 7)]
       = map Some [(0, 6), (7, 13)]"
proof -
  have a: "remove_all ''@@ '' ''fo@@ o b@@ ar'' = ''foo bar''" by code_simp
  have b: "set [(7, 13), (0, 6)] = set [(0::nat, 6::nat), (7, 13)]" by auto
  have c: "separated [(0, 6), (7, 13)]" by code_simp
  have d: "on_kept (matched ''fo@@ o b@@ ar'' 0 ''foo bar'') [(0, 6), (7, 13)]" by code_simp
  have m: "map (contract (matched ''fo@@ o b@@ ar'' 0 ''foo bar'')) [(0, 6), (7, 13)]
             = [(0, 3), (4, 7)]" by code_simp
  note r = remap_round_trip [OF a [symmetric] b c d, unfolded m]
  from r a b c d show ?thesis by blast
qed

section \<open>A position that ends one span and starts another (C10)\<close>

text \<open>
  A cursor position is tested as a start first and as an end only otherwise: at a position
  that ends one span and starts another nothing is appended, and the pending start is
  overwritten.
\<close>

lemma check_position_start_first:
  assumes "(a, b) \<in> set spans" and "(b, c) \<in> set spans" and "tokenized_idx st = b"
  shows "has_key (dict_of (map (\<lambda>(start, end). (end, start)) spans)) b
         \<and> check_position (dict_of spans) (dict_of (map (\<lambda>(start, end). (end, start)) spans)) st
             = Inr (st\<lparr>true_start := Some (b - current_offset st)\<rparr>)"
proof -
  have "b \<in> fst ` set spans" using assms(2) by force
  then have s: "has_key (dict_of spans) b" by (simp add: has_key_dict_of)
  have "b \<in> fst ` set (map (\<lambda>(start, end). (end, start)) spans)" using assms(1) by force
  then have e: "has_key (dict_of (map (\<lambda>(start, end). (end, start)) spans)) b"
    by (simp only: has_key_dict_of)
  from s e assms(3) show ?thesis by (simp add: check_position_def)
qed


text \<open>
  C10 states that for every input in which the end of one span is the start of another the
  earlier span is never appended and its pending start is overwritten. When the cursor
  never reaches the shared position, it is not tested at all: here the position 2 lies
  behind the last matched character, and the earlier span \<open>[0,2]\<close> is what the final step
  appends.
\<close>

theorem remap_shared_boundary_counterexample:
  "remap_constraint_indices ''ab '' ''ab'' [(0, 2), (2, 3)] = Inr [(0, 2)]"
  by code_simp

text \<open>
  C10, amended: a cursor position is tested as a start first and as an end only otherwise.
  So, for every input whose detokenized string is matched to its end and whose spans are
  non-overlapping, the remapper returns, remapped and in increasing order, exactly the
  spans whose start the cursor reaches, except each span whose end is the start of another
  span and is reached by the cursor: that position is processed as a start only, the
  earlier span is not appended and its pending start is overwritten. In the statement
  \<open>spans\<close> is the list given to the remapper, in any order, and \<open>ordered\<close> lists the same spans
  in increasing order.
\<close>

theorem remap_shared_boundary:
  assumes "aligned tokenized 0 detokenized"
    and "set spans = set ordered"
    and "non_overlapping ordered"
  shows "remap_constraint_indices tokenized detokenized spans
           = Inr (map (contract (matched tokenized 0 detokenized))
                    (filter (returned (stop tokenized 0 detokenized) ordered) ordered))"
  using assms by (rule remap_chained)


theorem remap_shared_boundary_witness:
  "aligned ''fo@@ o bar'' 0 ''foo bar''
   \<and> set [(2, 6), (7, 10), (0, 2)] = set [(0::nat, 2::nat), (2, 6), (7, 10)]
   \<and> non_overlapping [(0, 2), (2, 6), (7, 10)]
   \<and> filter (returned (stop ''fo@@ o bar'' 0 ''foo bar'') [(0, 2), (2, 6), (7, 10)])
        [(0, 2), (2, 6), (7, 10)] = [(2, 6), (7, 10)]
   \<and> remap_constraint_indices ''fo@@ o bar'' ''foo bar'' [(2, 6), (7, 10), (0, 2)]
       = Inr [(2, 3), (4, 7)]"
proof -
  have a: "aligned ''fo@@ o bar'' 0 ''foo bar''" by code_simp
  have b: "set [(2, 6), (7, 10), (0, 2)] = set [(0::nat, 2::nat), (2, 6), (7, 10)]" by auto
  have c: "non_overlapping [(0, 2), (2, 6), (7, 10)]" by code_simp
  have f: "filter (returned (stop ''fo@@ o bar'' 0 ''foo bar'') [(0, 2), (2, 6), (7, 10)])
             [(0, 2), (2, 6), (7, 10)] = [(2, 6), (7, 10)]" by code_simp
  have m: "map (contract (matched ''fo@@ o bar'' 0 ''foo bar'')) [(2, 6), (7, 10)]
             = [(2, 3), (4, 7)]" by code_simp
  note r = remap_shared_boundary [OF a b c, unfolded f m]
  from r a b c f show ?thesis by blast
qed

end
